theory Spec2Isabelle
  imports Complex_Main "HOL-Library.Char_ord" "HOL-Library.List_Lexorder"
    "HOL-Library.Product_Lexorder" "HOL-Library.Log_Nat"
begin

section \<open>CourseWatcher: the store and its services\<close>

text \<open>
  A shallow embedding of the services of CourseWatcher
  (\<^verbatim>\<open>services/video-service\<close>, \<^verbatim>\<open>services/progress-service\<close>,
  \<^verbatim>\<open>services/notes-service\<close>) over the SQLite schema of
  \<^verbatim>\<open>models/database.js\<close>.

  Conventions of the embedding.
  \<^item> A table is the list of its rows in insertion (rowid) order. \<^verbatim>\<open>db.get\<close> is the
    first row that satisfies the \<^verbatim>\<open>WHERE\<close> clause, \<^verbatim>\<open>db.all\<close> the list of all of
    them, an \<^verbatim>\<open>UPDATE\<close> rewrites every row that satisfies it.
  \<^item> A JavaScript number is an IEEE double: a finite value, one of the two infinities
    or \<^verbatim>\<open>NaN\<close>. Division and multiplication round to the nearest double, ties to
    even. The two zeros are one value: a negative zero reaches the services only as a
    position or a duration, where it behaves as zero, and is never a divisor.
  \<^item> A \<^verbatim>\<open>REAL\<close> column holds a double or \<^verbatim>\<open>NULL\<close>. The driver binds \<^verbatim>\<open>NaN\<close> as
    \<^verbatim>\<open>NULL\<close>, and the services treat the \<^verbatim>\<open>null\<close> they read back as they treat
    \<^verbatim>\<open>NaN\<close> (it is falsy and compares false), so \<^verbatim>\<open>NULL\<close> is written \<open>NaN\<close>.
  \<^item> Text is the list of the bytes of its UTF-8 encoding, which is what the driver
    hands to SQLite.
  \<^item> \<^verbatim>\<open>COUNT(*)\<close> is an integer, and an exact JavaScript number: a database file of
    SQLite holds at most \<open>2 ^ 48\<close> bytes (\<open>2 ^ 32\<close> pages of \<open>2 ^ 16\<close> bytes) and a row
    of \<^verbatim>\<open>videos\<close> takes more than 16 of them, so a table has fewer than \<open>2 ^ 44\<close>
    rows.
  \<^item> The columns \<^verbatim>\<open>created_at\<close> and \<^verbatim>\<open>updated_at\<close> are left out: they hold the wall
    clock, and no operation below reads them.
  \<^item> A method that throws is the value \<open>Inl e\<close>; every throw of the services happens
    before the first write of the call (or inside the transaction of the scan, which
    rolls back), so the store after a throw is the store before the call.
  \<^item> Of the constraints of the schema the \<^verbatim>\<open>UNIQUE\<close> ones on \<^verbatim>\<open>path\<close> are checked by
    the inserts, the one on \<^verbatim>\<open>notes.video_id\<close> is the conflict target of the upsert,
    the \<^verbatim>\<open>CHECK\<close> on \<^verbatim>\<open>status\<close> is the type of the column, and
    \<^verbatim>\<open>AUTOINCREMENT\<close> is the sequence counter of the table. Foreign keys are not
    checked: the services only ever insert the identifier of a row they have just read
    or written.
\<close>

subsection \<open>JavaScript numbers\<close>

datatype jsnum = Num rat | PInf | NInf | NaN

text \<open>The nearest integer, a tie going to the even one.\<close>

definition round_even :: "rat \<Rightarrow> int" where
  "round_even q =
     (let n = \<lfloor>q\<rfloor>; r = q - of_int n
      in if r < 1 / 2 then n else if 1 / 2 < r then n + 1 else if even n then n else n + 1)"

text \<open>The exponent of a positive rational: \<open>2 powi ilog2 x \<le> x < 2 powi (ilog2 x + 1)\<close>.\<close>

definition ilog2 :: "rat \<Rightarrow> int" where
  "ilog2 x =
     (let k = bitlen (fst (quotient_of x)) - bitlen (snd (quotient_of x))
      in if 2 powi k \<le> x then k else k - 1)"

text \<open>
  The double nearest to a positive rational: 53 significant bits, the least exponent
  \<open>- 1022\<close> (below it the spacing stays \<open>2 powi - 1074\<close>), and infinity from
  \<open>2 powi 1024\<close> on.
\<close>

definition fl_pos :: "rat \<Rightarrow> jsnum" where
  "fl_pos x =
     (let e = max (ilog2 x) (- 1022);
          ulp = 2 powi (e - 52);
          y = of_int (round_even (x / ulp)) * ulp
      in if y < 2 powi 1024 then Num y else PInf)"

fun js_neg :: "jsnum \<Rightarrow> jsnum" where
  "js_neg (Num x) = Num (- x)"
| "js_neg PInf = NInf"
| "js_neg NInf = PInf"
| "js_neg NaN = NaN"

definition fl :: "rat \<Rightarrow> jsnum" where
  "fl x = (if x = 0 then Num 0 else if 0 < x then fl_pos x else js_neg (fl_pos (- x)))"

text \<open>\<^verbatim>\<open>a < b\<close> and \<^verbatim>\<open>a <= b\<close>; \<^verbatim>\<open>a > b\<close> is \<^verbatim>\<open>b < a\<close> and \<^verbatim>\<open>a >= b\<close> is \<^verbatim>\<open>b <= a\<close>.\<close>

fun js_lt :: "jsnum \<Rightarrow> jsnum \<Rightarrow> bool" where
  "js_lt (Num x) (Num y) = (x < y)"
| "js_lt (Num x) PInf = True"
| "js_lt NInf (Num y) = True"
| "js_lt NInf PInf = True"
| "js_lt _ _ = False"

fun js_le :: "jsnum \<Rightarrow> jsnum \<Rightarrow> bool" where
  "js_le (Num x) (Num y) = (x \<le> y)"
| "js_le (Num x) PInf = True"
| "js_le NInf (Num y) = True"
| "js_le NInf PInf = True"
| "js_le PInf PInf = True"
| "js_le NInf NInf = True"
| "js_le _ _ = False"

definition js_gt :: "jsnum \<Rightarrow> jsnum \<Rightarrow> bool" where
  "js_gt a b = js_lt b a"

definition js_ge :: "jsnum \<Rightarrow> jsnum \<Rightarrow> bool" where
  "js_ge a b = js_le b a"

text \<open>\<^verbatim>\<open>a / b\<close> and \<^verbatim>\<open>a * b\<close>.\<close>

fun js_div :: "jsnum \<Rightarrow> jsnum \<Rightarrow> jsnum" where
  "js_div (Num a) (Num b) =
     (if b = 0 then (if a = 0 then NaN else if 0 < a then PInf else NInf) else fl (a / b))"
| "js_div (Num a) PInf = Num 0"
| "js_div (Num a) NInf = Num 0"
| "js_div PInf (Num b) = (if 0 \<le> b then PInf else NInf)"
| "js_div NInf (Num b) = (if 0 \<le> b then NInf else PInf)"
| "js_div _ _ = NaN"

fun js_mul :: "jsnum \<Rightarrow> jsnum \<Rightarrow> jsnum" where
  "js_mul (Num a) (Num b) = fl (a * b)"
| "js_mul (Num a) PInf = (if a = 0 then NaN else if 0 < a then PInf else NInf)"
| "js_mul (Num a) NInf = (if a = 0 then NaN else if 0 < a then NInf else PInf)"
| "js_mul PInf (Num b) = (if b = 0 then NaN else if 0 < b then PInf else NInf)"
| "js_mul NInf (Num b) = (if b = 0 then NaN else if 0 < b then NInf else PInf)"
| "js_mul PInf PInf = PInf"
| "js_mul PInf NInf = NInf"
| "js_mul NInf PInf = NInf"
| "js_mul NInf NInf = PInf"
| "js_mul _ _ = NaN"

text \<open>The numbers that count as true in \<^verbatim>\<open>a || b\<close>: all but zero and \<^verbatim>\<open>NaN\<close>.\<close>

definition js_truthy :: "jsnum \<Rightarrow> bool" where
  "js_truthy a = (a \<noteq> Num 0 \<and> a \<noteq> NaN)"

text \<open>\<^verbatim>\<open>Math.round\<close>: the nearest integer, a half rounded up.\<close>

fun math_round :: "jsnum \<Rightarrow> jsnum" where
  "math_round (Num x) = Num (of_int \<lfloor>x + 1 / 2\<rfloor>)"
| "math_round a = a"

subsection \<open>Data model\<close>

datatype status = Unwatched | InProgress | Completed

record module_row =
  m_id :: int
  m_name :: string
  m_path :: string
  m_sort_order :: jsnum

record video =
  v_id :: int
  v_path :: string
  v_filename :: string
  v_title :: string
  v_duration :: jsnum
  v_position :: jsnum
  v_status :: status
  v_module_id :: "int option"
  v_sort_order :: int

record note_row =
  n_id :: int
  n_video_id :: int
  n_content :: string

record db =
  tbl_modules :: "module_row list"
  tbl_videos :: "video list"
  tbl_notes :: "note_row list"
  seq_modules :: int
  seq_videos :: int
  seq_notes :: int

definition empty_db :: db where
  "empty_db = \<lparr>tbl_modules = [], tbl_videos = [], tbl_notes = [],
              seq_modules = 0, seq_videos = 0, seq_notes = 0\<rparr>"

datatype error = ValidationError | NotFoundError | ConstraintError | PatternTooComplex

text \<open>An argument as a caller passes it; \<^verbatim>\<open>typeof\<close> is \<^verbatim>\<open>'number'\<close> for the first.\<close>

datatype jsval = JNumber jsnum | JString string | JNull | JUndefined

text \<open>\<^verbatim>\<open>AUTOINCREMENT\<close>: one more than the largest rowid the table has ever held.\<close>

definition next_rowid :: "int \<Rightarrow> int list \<Rightarrow> int" where
  "next_rowid s ids = fold max ids s + 1"

text \<open>\<^verbatim>\<open>SELECT * FROM videos WHERE id = ?\<close> through \<^verbatim>\<open>db.get\<close>.\<close>

definition get_video :: "db \<Rightarrow> int \<Rightarrow> video option" where
  "get_video d i = find (\<lambda>v. v_id v = i) (tbl_videos d)"

subsection \<open>Progress service\<close>

text \<open>
  \<^verbatim>\<open>config.completionThreshold\<close> of \<^verbatim>\<open>utils/config\<close>: the literal \<^verbatim>\<open>0.9\<close> is the
  double nearest to nine tenths.
\<close>

definition completionThreshold :: jsnum where
  "completionThreshold = fl (9 / 10)"

text \<open>
  \<^verbatim>\<open>duration || video.duration\<close>: the supplied duration unless it is \<^verbatim>\<open>null\<close>,
  \<^verbatim>\<open>undefined\<close>, zero or \<^verbatim>\<open>NaN\<close>.
\<close>

definition js_or :: "jsnum option \<Rightarrow> jsnum \<Rightarrow> jsnum" where
  "js_or duration stored =
     (case duration of None \<Rightarrow> stored | Some x \<Rightarrow> if js_truthy x then x else stored)"

text \<open>
  \<^verbatim>\<open>COALESCE(?, duration)\<close>: the bound parameter unless it is \<^verbatim>\<open>NULL\<close>, which is how
  \<^verbatim>\<open>null\<close> and \<^verbatim>\<open>NaN\<close> are bound.
\<close>

definition coalesce :: "jsnum option \<Rightarrow> jsnum \<Rightarrow> jsnum" where
  "coalesce duration stored =
     (case duration of None \<Rightarrow> stored | Some x \<Rightarrow> if x = NaN then stored else x)"

text \<open>
  Lines 43 to 57 of \<^verbatim>\<open>updatePosition\<close> ("Determine new status based on position"),
  for the row \<open>video\<close> read from the store, the validated position \<open>p\<close> and the
  duration argument.
\<close>

definition newStatus :: "video \<Rightarrow> jsnum \<Rightarrow> jsnum option \<Rightarrow> status" where
  "newStatus video p duration =
     (let videoDuration = js_or duration (v_duration video)
      in if js_gt videoDuration (Num 0) then
           (let watchPercent = js_div p videoDuration
            in if js_ge watchPercent completionThreshold then Completed
               else if js_gt p (Num 0) then InProgress
               else v_status video)
         else if js_gt p (Num 0) \<and> v_status video = Unwatched then InProgress
         else v_status video)"

text \<open>
  \<^verbatim>\<open>ProgressService.updatePosition(videoId, position, duration = null)\<close>. The duration
  is \<open>None\<close> for \<^verbatim>\<open>null\<close> and \<^verbatim>\<open>undefined\<close>. The result is the row read back after the
  update, with the new store.
\<close>

definition updatePosition ::
  "db \<Rightarrow> int \<Rightarrow> jsval \<Rightarrow> jsnum option \<Rightarrow> error + (video option \<times> db)" where
  "updatePosition d videoId position duration =
     (case position of
        JNumber p \<Rightarrow>
          if js_lt p (Num 0) then Inl ValidationError
          else (case get_video d videoId of
                  None \<Rightarrow> Inl NotFoundError
                | Some video \<Rightarrow>
                    let st = newStatus video p duration;
                        d' = d\<lparr>tbl_videos :=
                               map (\<lambda>v. if v_id v = videoId
                                         then v\<lparr>v_position := p,
                                                v_duration := coalesce duration (v_duration v),
                                                v_status := st\<rparr>
                                         else v) (tbl_videos d)\<rparr>
                    in Inr (get_video d' videoId, d'))
      | _ \<Rightarrow> Inl ValidationError)"

text \<open>\<^verbatim>\<open>validStatuses\<close> of \<^verbatim>\<open>updateStatus\<close>, with the value each name denotes.\<close>

definition validStatuses :: "(string \<times> status) list" where
  "validStatuses =
     [(''unwatched'', Unwatched), (''in-progress'', InProgress), (''completed'', Completed)]"

text \<open>\<^verbatim>\<open>ProgressService.updateStatus(videoId, status)\<close>.\<close>

definition updateStatus :: "db \<Rightarrow> int \<Rightarrow> string \<Rightarrow> error + (video option \<times> db)" where
  "updateStatus d videoId st =
     (case map_of validStatuses st of
        None \<Rightarrow> Inl ValidationError
      | Some s \<Rightarrow>
          (case get_video d videoId of
             None \<Rightarrow> Inl NotFoundError
           | Some video \<Rightarrow>
               let newPosition = (if s = Unwatched then Num 0 else v_position video);
                   d' = d\<lparr>tbl_videos :=
                          map (\<lambda>v. if v_id v = videoId
                                    then v\<lparr>v_status := s, v_position := newPosition\<rparr>
                                    else v) (tbl_videos d)\<rparr>
               in Inr (get_video d' videoId, d')))"

subsection \<open>Video service: scanning\<close>

text \<open>
  \<^verbatim>\<open>_extractSortOrder\<close>: \<^verbatim>\<open>parseInt\<close> of the leading run of decimal digits, which is
  the double nearest to the integer they write, or 999 when there is none.
\<close>

definition is_digit :: "char \<Rightarrow> bool" where
  "is_digit c = (CHR ''0'' \<le> c \<and> c \<le> CHR ''9'')"

definition extractSortOrder :: "string \<Rightarrow> jsnum" where
  "extractSortOrder filename =
     (let m = takeWhile is_digit filename
      in if m = [] then Num 999
         else fl (of_int (foldl (\<lambda>a c. 10 * a + (int (of_char c) - 48)) 0 m)))"

text \<open>
  An element of the array that \<^verbatim>\<open>_findVideoFiles(coursePath)\<close> returns. The walk
  itself reads the file system; the scan below takes its result as an argument, so a
  statement for every such list is a statement for every directory tree. The sort key
  is the value of \<^verbatim>\<open>_extractSortOrder\<close> for the name of the file, an integer: a file
  name has too few digits for \<^verbatim>\<open>parseInt\<close> to overflow, and a double that big has no
  fraction.
\<close>

record found_video =
  f_path :: string
  f_filename :: string
  f_title :: string
  f_moduleName :: string
  f_modulePath :: string
  f_sortOrder :: int

text \<open>
  \<^verbatim>\<open>INSERT INTO modules (name, path, sort_order)\<close>; the result carries
  \<^verbatim>\<open>lastInsertRowid\<close>.
\<close>

definition insert_module :: "db \<Rightarrow> string \<Rightarrow> string \<Rightarrow> jsnum \<Rightarrow> error + (int \<times> db)" where
  "insert_module d name pth sortOrder =
     (if find (\<lambda>m. m_path m = pth) (tbl_modules d) \<noteq> None then Inl ConstraintError
      else let rowid = next_rowid (seq_modules d) (map m_id (tbl_modules d))
           in Inr (rowid,
                   d\<lparr>tbl_modules := tbl_modules d @
                        [\<lparr>m_id = rowid, m_name = name, m_path = pth,
                          m_sort_order = sortOrder\<rparr>],
                     seq_modules := rowid\<rparr>))"

text \<open>
  \<^verbatim>\<open>INSERT INTO videos (path, filename, title, module_id, sort_order)\<close>: the other
  columns take the defaults of the schema (duration 0, position 0, status
  \<^verbatim>\<open>'unwatched'\<close>).
\<close>

definition insert_video ::
  "db \<Rightarrow> string \<Rightarrow> string \<Rightarrow> string \<Rightarrow> int option \<Rightarrow> int \<Rightarrow> error + db" where
  "insert_video d pth filename title moduleId sortOrder =
     (if find (\<lambda>v. v_path v = pth) (tbl_videos d) \<noteq> None then Inl ConstraintError
      else let rowid = next_rowid (seq_videos d) (map v_id (tbl_videos d))
           in Inr (d\<lparr>tbl_videos := tbl_videos d @
                        [\<lparr>v_id = rowid, v_path = pth, v_filename = filename,
                          v_title = title, v_duration = Num 0, v_position = Num 0,
                          v_status = Unwatched, v_module_id = moduleId,
                          v_sort_order = sortOrder\<rparr>],
                     seq_videos := rowid\<rparr>))"

text \<open>\<^verbatim>\<open>_getOrCreateModule(modulePath, moduleName)\<close>; \<open>None\<close> is \<^verbatim>\<open>null\<close>.\<close>

definition getOrCreateModule :: "db \<Rightarrow> string \<Rightarrow> string \<Rightarrow> error + (int option \<times> db)" where
  "getOrCreateModule d modulePath moduleName =
     (if moduleName = ''Root'' then Inr (None, d)
      else (case find (\<lambda>m. m_path m = modulePath) (tbl_modules d) of
              Some existing \<Rightarrow> Inr (Some (m_id existing), d)
            | None \<Rightarrow>
                (case insert_module d moduleName modulePath (extractSortOrder moduleName) of
                   Inl e \<Rightarrow> Inl e
                 | Inr (rowid, d') \<Rightarrow> Inr (Some rowid, d'))))"

text \<open>
  The loop of \<^verbatim>\<open>scanVideos\<close> inside \<^verbatim>\<open>this._db.transaction\<close>, with the two
  counters \<^verbatim>\<open>addedCount\<close> and \<^verbatim>\<open>updatedCount\<close>. A failing statement ends the
  transaction with the error; the rollback is that no store is returned.
\<close>

fun reconcile :: "db \<Rightarrow> found_video list \<Rightarrow> nat \<Rightarrow> nat \<Rightarrow> error + (nat \<times> nat \<times> db)" where
  "reconcile d [] addedCount updatedCount = Inr (addedCount, updatedCount, d)"
| "reconcile d (video # rest) addedCount updatedCount =
     (case find (\<lambda>v. v_path v = f_path video) (tbl_videos d) of
        Some existing \<Rightarrow>
          reconcile
            (d\<lparr>tbl_videos :=
                 map (\<lambda>v. if v_id v = v_id existing then v\<lparr>v_title := f_title video\<rparr> else v)
                   (tbl_videos d)\<rparr>)
            rest addedCount (updatedCount + 1)
      | None \<Rightarrow>
          (case getOrCreateModule d (f_modulePath video) (f_moduleName video) of
             Inl e \<Rightarrow> Inl e
           | Inr (moduleId, d1) \<Rightarrow>
               (case insert_video d1 (f_path video) (f_filename video) (f_title video)
                       moduleId (f_sortOrder video) of
                  Inl e \<Rightarrow> Inl e
                | Inr d2 \<Rightarrow> reconcile d2 rest (addedCount + 1) updatedCount)))"

record scan_result =
  total :: nat
  added :: nat
  existing :: nat

text \<open>
  \<^verbatim>\<open>VideoService.scanVideos()\<close>, where \<open>videos\<close> is the value of
  \<^verbatim>\<open>this._findVideoFiles(coursePath)\<close>.
\<close>

definition scanVideos :: "db \<Rightarrow> found_video list \<Rightarrow> error + (scan_result \<times> db)" where
  "scanVideos d videos =
     (case reconcile d videos 0 0 of
        Inl e \<Rightarrow> Inl e
      | Inr (addedCount, updatedCount, d') \<Rightarrow>
          Inr (\<lparr>total = length videos, added = addedCount, existing = updatedCount\<rparr>, d'))"

subsection \<open>Video service: statistics\<close>

record stats =
  s_total :: int
  s_completed :: int
  s_inProgress :: int
  s_unwatched :: int
  s_percentComplete :: jsnum

text \<open>\<^verbatim>\<open>SELECT COUNT(*) as count FROM videos WHERE status = ?\<close>.\<close>

definition count_status :: "db \<Rightarrow> status \<Rightarrow> int" where
  "count_status d s = int (length (filter (\<lambda>v. v_status v = s) (tbl_videos d)))"

text \<open>
  \<^verbatim>\<open>VideoService.getStats()\<close>. The quotient and the product of the percentage are
  those of doubles; the subtractions are exact.
\<close>

definition getStats :: "db \<Rightarrow> stats" where
  "getStats d =
     (let total_count = int (length (tbl_videos d));
          completed_count = count_status d Completed;
          inProgress_count = count_status d InProgress
      in \<lparr>s_total = total_count,
          s_completed = completed_count,
          s_inProgress = inProgress_count,
          s_unwatched = total_count - completed_count - inProgress_count,
          s_percentComplete =
            (if total_count > 0
             then math_round
                    (js_mul (js_div (Num (of_int completed_count)) (Num (of_int total_count)))
                       (Num 100))
             else Num 0)\<rparr>)"

subsection \<open>Video service: search\<close>

text \<open>
  The text that SQLite reads from a value: the bytes before the first zero byte,
  decoded as \<^verbatim>\<open>sqlite3Utf8Read\<close> decodes them. A byte below \<open>0xC0\<close> is a character of
  its own; a byte from \<open>0xC0\<close> on starts a character that takes in every continuation
  byte (\<open>0x80\<close> to \<open>0xBF\<close>) that follows, six bits each in 32-bit arithmetic, and that
  is replaced by \<open>0xFFFD\<close> when it comes out below \<open>0x80\<close>, as a surrogate, or as
  \<open>0xFFFE\<close> or \<open>0xFFFF\<close>.
\<close>

definition c_str :: "string \<Rightarrow> string" where
  "c_str s = takeWhile (\<lambda>c. c \<noteq> CHR 0x00) s"

definition utf8_lead :: "nat \<Rightarrow> nat" where
  "utf8_lead b =
     (if b < 0xE0 then b - 0xC0 else if b < 0xF0 then b - 0xE0 else if b < 0xF8 then b - 0xF0
      else if b < 0xFC then b - 0xF8 else if b < 0xFE then b - 0xFC else 0)"

definition utf8_fix :: "nat \<Rightarrow> nat" where
  "utf8_fix c =
     (if c < 0x80 \<or> (0xD800 \<le> c \<and> c < 0xE000) \<or> c = 0xFFFE \<or> c = 0xFFFF then 0xFFFD else c)"

fun utf8_read :: "nat option \<Rightarrow> nat list \<Rightarrow> nat list" where
  "utf8_read None [] = []"
| "utf8_read (Some c) [] = [utf8_fix c]"
| "utf8_read None (b # bs) =
     (if b < 0xC0 then b # utf8_read None bs else utf8_read (Some (utf8_lead b)) bs)"
| "utf8_read (Some c) (b # bs) =
     (if 0x80 \<le> b \<and> b < 0xC0 then utf8_read (Some ((c * 64 + b mod 64) mod 2 ^ 32)) bs
      else if b < 0xC0 then utf8_fix c # b # utf8_read None bs
      else utf8_fix c # utf8_read (Some (utf8_lead b)) bs)"

definition chars :: "string \<Rightarrow> nat list" where
  "chars s = utf8_read None (map of_char s)"

definition sql_text :: "string \<Rightarrow> nat list" where
  "sql_text s = chars (c_str s)"

text \<open>
  The \<^verbatim>\<open>LIKE\<close> operator of SQLite as the services use it (no \<^verbatim>\<open>ESCAPE\<close>, the
  default case folding), on the characters of pattern and text: \<^verbatim>\<open>%\<close> (37) stands for
  any run of characters, \<^verbatim>\<open>_\<close> (95) for any one character, every other character for
  itself up to the case of the letters A to Z.
\<close>

definition ascii_lower :: "nat \<Rightarrow> nat" where
  "ascii_lower c = (if 65 \<le> c \<and> c \<le> 90 then c + 32 else c)"

fun like_chars :: "nat list \<Rightarrow> nat list \<Rightarrow> bool" where
  "like_chars [] s = (s = [])"
| "like_chars (p # ps) [] = (p = 37 \<and> like_chars ps [])"
| "like_chars (p # ps) (c # cs) =
     (if p = 37 then like_chars ps (c # cs) \<or> like_chars (p # ps) cs
      else (p = 95 \<or> ascii_lower p = ascii_lower c) \<and> like_chars ps cs)"

definition like :: "string \<Rightarrow> string \<Rightarrow> bool" where
  "like pattern s = like_chars (sql_text pattern) (sql_text s)"

text \<open>
  \<^verbatim>\<open>videos v LEFT JOIN modules m ON v.module_id = m.id\<close> for one row of
  \<^verbatim>\<open>videos\<close>, projected to \<^verbatim>\<open>v.*, m.name as module_name\<close>.
\<close>

definition left_join_module :: "db \<Rightarrow> video \<Rightarrow> (video \<times> string option) list" where
  "left_join_module d v =
     (let ms = filter (\<lambda>m. v_module_id v = Some (m_id m)) (tbl_modules d)
      in if ms = [] then [(v, None)] else map (\<lambda>m. (v, Some (m_name m))) ms)"

text \<open>
  \<^verbatim>\<open>ORDER BY v.sort_order, v.filename\<close>: integers in their order, text in the order
  of its bytes; rows with equal keys keep the order of the table.
\<close>

definition order_by_sort_order_filename :: "(video \<times> 'a) list \<Rightarrow> (video \<times> 'a) list" where
  "order_by_sort_order_filename rows =
     sort_key (\<lambda>r. (v_sort_order (fst r), v_filename (fst r))) rows"

text \<open>
  \<^verbatim>\<open>VideoService.searchVideos(query)\<close>. SQLite refuses a \<^verbatim>\<open>LIKE\<close> pattern of more than
  50000 bytes when it evaluates the operator, which it does for the first row of
  \<^verbatim>\<open>videos\<close>; the driver throws.
\<close>

definition searchVideos :: "db \<Rightarrow> string \<Rightarrow> error + (video \<times> string option) list" where
  "searchVideos d query =
     (let searchTerm = ''%'' @ query @ ''%''
      in if tbl_videos d \<noteq> [] \<and> 50000 < length searchTerm then Inl PatternTooComplex
         else Inr (order_by_sort_order_filename
                (concat (map (left_join_module d)
                   (filter (\<lambda>v. like searchTerm (v_title v) \<or> like searchTerm (v_filename v))
                      (tbl_videos d))))))"

text \<open>
  The handlers of \<^verbatim>\<open>GET /search\<close> and \<^verbatim>\<open>GET /api/search\<close> in the video controller:
  \<^verbatim>\<open>query ? videoService.searchVideos(query) : []\<close>, where a missing \<^verbatim>\<open>q\<close> is the
  empty string.
\<close>

definition search_handler :: "db \<Rightarrow> string \<Rightarrow> error + (video \<times> string option) list" where
  "search_handler d query = (if query = [] then Inr [] else searchVideos d query)"

text \<open>
  The words of the specification of search, on characters: \<open>s\<close> contains \<open>q\<close> as a
  substring, up to the case of the letters A to Z.
\<close>

fun prefix_ci :: "nat list \<Rightarrow> nat list \<Rightarrow> bool" where
  "prefix_ci [] s = True"
| "prefix_ci (q # qs) [] = False"
| "prefix_ci (q # qs) (c # cs) = (ascii_lower q = ascii_lower c \<and> prefix_ci qs cs)"

fun contains_ci :: "nat list \<Rightarrow> nat list \<Rightarrow> bool" where
  "contains_ci q [] = prefix_ci q []"
| "contains_ci q (c # cs) = (prefix_ci q (c # cs) \<or> contains_ci q cs)"

subsection \<open>Notes service\<close>

text \<open>
  What \<^verbatim>\<open>getNotes\<close> returns: the row of \<^verbatim>\<open>notes\<close>, or the object
  \<^verbatim>\<open>{ video_id: videoId, content: '' }\<close> built in its place.
\<close>

datatype notes_result = NotesRow note_row | NotesObject int string

text \<open>
  \<^verbatim>\<open>NotesService.getNotes(videoId)\<close>. It is the last call of \<^verbatim>\<open>saveNotes\<close>, so it
  passes the store on as the writing methods do.
\<close>

definition getNotes :: "db \<Rightarrow> int \<Rightarrow> error + (notes_result \<times> db)" where
  "getNotes d videoId =
     (case get_video d videoId of
        None \<Rightarrow> Inl NotFoundError
      | Some video \<Rightarrow>
          (case find (\<lambda>n. n_video_id n = videoId) (tbl_notes d) of
             Some notes \<Rightarrow> Inr (NotesRow notes, d)
           | None \<Rightarrow> Inr (NotesObject videoId '''', d)))"

text \<open>
  \<^verbatim>\<open>INSERT INTO notes (video_id, content, updated_at) ... ON CONFLICT(video_id) DO
  UPDATE SET content = excluded.content\<close>. The statement draws a rowid from the
  sequence before it meets the conflict, so the counter advances on both paths.
\<close>

definition upsert_notes :: "db \<Rightarrow> int \<Rightarrow> string \<Rightarrow> db" where
  "upsert_notes d videoId content =
     (let rowid = next_rowid (seq_notes d) (map n_id (tbl_notes d))
      in if find (\<lambda>n. n_video_id n = videoId) (tbl_notes d) \<noteq> None
         then d\<lparr>tbl_notes :=
                  map (\<lambda>n. if n_video_id n = videoId then n\<lparr>n_content := content\<rparr> else n)
                    (tbl_notes d),
                seq_notes := rowid\<rparr>
         else d\<lparr>tbl_notes := tbl_notes d @
                  [\<lparr>n_id = rowid, n_video_id = videoId, n_content = content\<rparr>],
                seq_notes := rowid\<rparr>)"

text \<open>\<^verbatim>\<open>NotesService.saveNotes(videoId, content)\<close>.\<close>

definition saveNotes :: "db \<Rightarrow> int \<Rightarrow> string \<Rightarrow> error + (notes_result \<times> db)" where
  "saveNotes d videoId content =
     (case get_video d videoId of
        None \<Rightarrow> Inl NotFoundError
      | Some video \<Rightarrow> getNotes (upsert_notes d videoId content) videoId)"

text \<open>
  \<^verbatim>\<open>NotesService.getVideosWithNotes()\<close>: \<^verbatim>\<open>videos v INNER JOIN notes n ON v.id =
  n.video_id WHERE n.content != ''\<close>, projected to \<^verbatim>\<open>v.*, n.content as notes_content\<close>.
\<close>

definition getVideosWithNotes :: "db \<Rightarrow> (video \<times> string) list" where
  "getVideosWithNotes d =
     order_by_sort_order_filename
       (concat (map (\<lambda>v. map (\<lambda>n. (v, n_content n))
                           (filter (\<lambda>n. v_id v = n_video_id n \<and> n_content n \<noteq> '''')
                              (tbl_notes d)))
                  (tbl_videos d)))"

subsection \<open>Reachable stores\<close>

text \<open>
  The stores that the public operations produce from the empty schema. A call that
  throws leaves the store as it was.
\<close>

inductive reachable :: "db \<Rightarrow> bool" where
  reachable_init: "reachable empty_db"
| reachable_scan: "reachable d \<Longrightarrow> scanVideos d videos = Inr (r, d') \<Longrightarrow> reachable d'"
| reachable_position:
    "reachable d \<Longrightarrow> updatePosition d videoId position duration = Inr (v, d') \<Longrightarrow> reachable d'"
| reachable_status:
    "reachable d \<Longrightarrow> updateStatus d videoId st = Inr (v, d') \<Longrightarrow> reachable d'"
| reachable_notes:
    "reachable d \<Longrightarrow> saveNotes d videoId content = Inr (n, d') \<Longrightarrow> reachable d'"

subsection \<open>Rows up to their title\<close>

text \<open>
  A row with its title blanked, and the relation between a row and the same row whose
  title is either kept or replaced by one of the titles in \<open>T\<close>.
\<close>

definition untitled :: "video \<Rightarrow> video" where
  "untitled v = v\<lparr>v_title := []\<rparr>"

definition retitled :: "string set \<Rightarrow> video \<Rightarrow> video \<Rightarrow> bool" where
  "retitled T v v' = (untitled v' = untitled v \<and> (v_title v' = v_title v \<or> v_title v' \<in> T))"

subsection \<open>The effective duration of the specification\<close>



subsection \<open>Sequences of position updates\<close>



subsection \<open>Fixtures of the test suite\<close>

text \<open>
  The course directory of the progress-service tests holds the one file
  \<^verbatim>\<open>01. Test Video.mp4\<close>; \<open>scanned_db\<close> is the store after the scan of their
  \<^verbatim>\<open>beforeEach\<close>.
\<close>

definition test_file :: found_video where
  "test_file =
     \<lparr>f_path = ''/course/01. Test Video.mp4'', f_filename = ''01. Test Video.mp4'',
      f_title = ''01. Test Video'', f_moduleName = ''Root'', f_modulePath = ''/course'',
      f_sortOrder = 1\<rparr>"

definition test_video :: video where
  "test_video =
     \<lparr>v_id = 1, v_path = ''/course/01. Test Video.mp4'', v_filename = ''01. Test Video.mp4'',
      v_title = ''01. Test Video'', v_duration = Num 0, v_position = Num 0,
      v_status = Unwatched, v_module_id = None, v_sort_order = 1\<rparr>"

definition scanned_db :: db where
  "scanned_db = empty_db\<lparr>tbl_videos := [test_video], seq_videos := 1\<rparr>"

text \<open>
  The same video marked completed by hand (\<^verbatim>\<open>updateStatus(1, 'completed')\<close>) and then
  reported at position 0 of 600 seconds.
\<close>

definition completed_video :: video where
  "completed_video = test_video\<lparr>v_duration := Num 600, v_status := Completed\<rparr>"


text \<open>The same video after \<^verbatim>\<open>updatePosition(1, 120, 600)\<close>, as in the tests.\<close>

definition started_video :: video where
  "started_video =
     test_video\<lparr>v_duration := Num 600, v_position := Num 120, v_status := InProgress\<rparr>"

definition started_db :: db where
  "started_db = scanned_db\<lparr>tbl_videos := [started_video]\<rparr>"

text \<open>The same file found again after a change of the rule that derives titles.\<close>

definition renamed_file :: found_video where
  "renamed_file = test_file\<lparr>f_title := ''Test Video''\<rparr>"

text \<open>Three videos, two of them completed and one in progress.\<close>

definition three_db :: db where
  "three_db = scanned_db\<lparr>tbl_videos :=
     [completed_video, completed_video\<lparr>v_id := 2, v_path := ''/course/02. Next.mp4''\<rparr>,
      started_video\<lparr>v_id := 3, v_path := ''/course/03. Last.mp4''\<rparr>], seq_videos := 3\<rparr>"

text \<open>Forty videos, the first twenty-three of them completed.\<close>

definition forty_db :: db where
  "forty_db = empty_db\<lparr>tbl_videos :=
       map (\<lambda>k. test_video\<lparr>v_id := int k + 1, v_path := replicate (Suc k) CHR ''a'',
                            v_status := (if k < 23 then Completed else Unwatched)\<rparr>)
         [0..<40],
     seq_videos := 40\<rparr>"

text \<open>The scanned store after \<^verbatim>\<open>saveNotes(1, 'hello')\<close>.\<close>

definition noted_db :: db where
  "noted_db = scanned_db\<lparr>tbl_notes := [\<lparr>n_id = 1, n_video_id = 1, n_content = ''hello''\<rparr>],
                         seq_notes := 1\<rparr>"

text \<open>
  That store after \<^verbatim>\<open>saveNotes(1, '')\<close>: the row of notes is still there, and the
  sequence of the table has advanced.
\<close>

definition cleared_db :: db where
  "cleared_db = noted_db\<lparr>tbl_notes := [\<lparr>n_id = 1, n_video_id = 1, n_content = ''''\<rparr>],
                         seq_notes := 2\<rparr>"

text \<open>
  A video whose title is the two bytes of \<^verbatim>\<open>U+00E9\<close>, a video whose title has a zero
  byte in it, a query of the two bytes of \<^verbatim>\<open>U+00C9\<close>, the letter of the first title in
  upper case, and a query that makes a pattern of more than 50000 bytes.
\<close>

definition accent_db :: db where
  "accent_db = scanned_db\<lparr>tbl_videos := [test_video\<lparr>v_title := [CHR 0xC3, CHR 0xA9]\<rparr>]\<rparr>"

definition nul_db :: db where
  "nul_db = scanned_db\<lparr>tbl_videos := [test_video\<lparr>v_title := [CHR ''a'', CHR 0x00, CHR ''b'']\<rparr>]\<rparr>"

definition accent_query :: string where
  "accent_query = [CHR 0xC3, CHR 0x89]"

definition long_query :: string where
  "long_query = replicate 49999 CHR ''a''"

section \<open>Properties\<close>

subsection \<open>Rounding to a double\<close>

lemma round_even_near: "\<bar>of_int (round_even q) - q\<bar> \<le> 1 / 2"
  unfolding round_even_def Let_def by (auto simp: abs_if) (linarith+)?

lemma round_even_le: "q \<le> of_int m \<Longrightarrow> round_even q \<le> m"
  unfolding round_even_def Let_def
  by (auto simp: floor_le_iff) (linarith+)?

lemma round_even_ge: "of_int m \<le> q \<Longrightarrow> m \<le> round_even q"
  unfolding round_even_def Let_def
  by (auto simp: le_floor_iff) (linarith+)?

lemma round_even_odd:
  assumes "odd N"
  shows "N \<le> round_even q \<longleftrightarrow> of_int N - 1 / 2 < q"
proof -
  define n where "n = \<lfloor>q\<rfloor>"
  have f: "of_int n \<le> q" "q < of_int n + 1"
    unfolding n_def by linarith+
  have re: "round_even q =
      (if q - of_int n < 1 / 2 then n else if 1 / 2 < q - of_int n then n + 1
       else if even n then n else n + 1)"
    unfolding round_even_def Let_def n_def by simp
  consider "n \<le> N - 2" | "n = N - 1" | "N \<le> n" by linarith
  then show ?thesis
  proof cases
    case 1
    then have "of_int n \<le> (of_int N :: rat) - 2" by (metis of_int_le_iff of_int_diff of_int_numeral)
    then have "\<not> of_int N - 1 / 2 < q" using f by linarith
    moreover have "round_even q \<le> n + 1" unfolding re by simp
    ultimately show ?thesis using 1 by linarith
  next
    case 2
    then have e: "even n" using assms by simp
    have n: "(of_int n :: rat) = of_int N - 1" using 2 by simp
    show ?thesis unfolding re using e n 2 by (auto; linarith)
  next
    case 3
    then have "(of_int N :: rat) \<le> of_int n" by simp
    then have "of_int N - 1 / 2 < q" using f by linarith
    moreover have "n \<le> round_even q" unfolding re by simp
    ultimately show ?thesis using 3 by linarith
  qed
qed

lemma bitlen_powi:
  assumes "0 < a"
  shows "2 powi (bitlen a - 1) \<le> (of_int a :: rat)" "(of_int a :: rat) < 2 powi (bitlen a)"
proof -
  have b: "1 \<le> bitlen a" using assms by (simp add: bitlen_alt_def)
  from bitlen_bounds[OF assms]
  have "(2::int) ^ nat (bitlen a - 1) \<le> a" "a < 2 ^ nat (bitlen a)" by simp_all
  then have "(of_int (2 ^ nat (bitlen a - 1)) :: rat) \<le> of_int a"
    "(of_int a :: rat) < of_int (2 ^ nat (bitlen a))"
    by (simp_all only: of_int_le_iff of_int_less_iff)
  then show "2 powi (bitlen a - 1) \<le> (of_int a :: rat)" "(of_int a :: rat) < 2 powi (bitlen a)"
    using b by (simp_all add: power_int_def)
qed

lemma ilog2_bounds:
  assumes "0 < x"
  shows "2 powi (ilog2 x) \<le> x" "x < 2 powi (ilog2 x + 1)"
proof -
  obtain a b where q: "quotient_of x = (a, b)" by (cases "quotient_of x")
  have b: "0 < b" using quotient_of_denom_pos[OF q] .
  have x: "x = of_int a / of_int b" using quotient_of_div[OF q] .
  have a: "0 < a" using assms b unfolding x by (simp add: zero_less_divide_iff)
  define k where "k = bitlen a - bitlen b"
  note A = bitlen_powi[OF a] and B = bitlen_powi[OF b]
  have rb: "(0::rat) < of_int b" using b by simp
  have lo: "2 powi (k - 1) \<le> x"
  proof -
    have "2 powi (k - 1) * (2 powi (bitlen b) :: rat) = 2 powi (bitlen a - 1)"
      unfolding k_def by (simp add: power_int_add [symmetric])
    moreover have "2 powi (k - 1) * (of_int b :: rat) \<le> 2 powi (k - 1) * 2 powi (bitlen b)"
      using B(2) by (intro mult_left_mono) simp_all
    ultimately have "2 powi (k - 1) * (of_int b :: rat) \<le> of_int a"
      using A(1) by linarith
    then show ?thesis unfolding x using rb by (simp add: pos_le_divide_eq)
  qed
  have hi: "x < 2 powi (k + 1)"
  proof -
    have "2 powi (k + 1) * (2 powi (bitlen b - 1) :: rat) = 2 powi (bitlen a)"
      unfolding k_def by (simp add: power_int_add [symmetric])
    moreover have "2 powi (k + 1) * 2 powi (bitlen b - 1) \<le> 2 powi (k + 1) * (of_int b :: rat)"
      using B(1) by (intro mult_left_mono) simp_all
    ultimately have "of_int a < 2 powi (k + 1) * (of_int b :: rat)"
      using A(2) by linarith
    then show ?thesis unfolding x using rb by (simp add: pos_divide_less_eq)
  qed
  have i: "ilog2 x = (if 2 powi k \<le> x then k else k - 1)"
    unfolding ilog2_def Let_def q k_def by simp
  show "2 powi (ilog2 x) \<le> x" "x < 2 powi (ilog2 x + 1)"
    unfolding i using lo hi by (auto simp: not_le)
qed

lemma powi2_mono: "m \<le> n \<Longrightarrow> (2::rat) powi m \<le> 2 powi n"
  by (rule power_int_increasing) simp_all

lemma powi2_strict: "m < n \<Longrightarrow> (2::rat) powi m < 2 powi n"
  by (rule power_int_strict_increasing) simp_all

lemma ilog2_eqI:
  assumes "2 powi e \<le> x" and "x < 2 powi (e + 1)"
  shows "ilog2 x = e"
proof -
  have p: "0 < x" using assms(1) by (smt (verit) zero_less_power_int zero_less_numeral less_le_trans)
  note b = ilog2_bounds[OF p]
  have "\<not> ilog2 x < e"
  proof
    assume "ilog2 x < e"
    then have "2 powi (ilog2 x + 1) \<le> (2::rat) powi e" by (intro powi2_mono) simp
    then show False using b(2) assms(1) by linarith
  qed
  moreover have "\<not> e < ilog2 x"
  proof
    assume "e < ilog2 x"
    then have "2 powi (e + 1) \<le> (2::rat) powi (ilog2 x)" by (intro powi2_mono) simp
    then show False using b(1) assms(2) by linarith
  qed
  ultimately show ?thesis by linarith
qed


lemma powi2_pos: "(0::rat) < 2 powi k"
  by simp

lemma powi2_add: "(2::rat) powi (m + n) = 2 powi m * 2 powi n"
  by (rule power_int_add) simp

lemma powi2_53: "of_int (2 ^ 53) * (2::rat) powi (k - 52) = 2 powi (k + 1)"
  using powi2_add[of 53 "k - 52"] by (simp add: ac_simps)

lemma powi2_52: "of_int (2 ^ 52) * (2::rat) powi (k - 52) = 2 powi k"
  using powi2_add[of 52 "k - 52"] by (simp add: ac_simps)

lemma powi2_half: "1 / 2 * (2::rat) powi (k - 52) = 2 powi k * 2 powi (- 53)"
  using powi2_add[of k "- 53"] powi2_add[of "- 1" "k - 52"] by simp

lemma round_even_nonneg: "0 \<le> q \<Longrightarrow> 0 \<le> round_even q"
  using round_even_ge[of 0 q] by simp

lemma fl_pos_upper:
  assumes "0 < x" and "ilog2 x \<le> e" and "- 1022 \<le> e" and "e < 1023"
  shows "\<exists>y. fl_pos x = Num y \<and> 0 \<le> y \<and> y \<le> 2 powi (e + 1)"
proof -
  define e0 where "e0 = max (ilog2 x) (- 1022)"
  define u :: rat where "u = 2 powi (e0 - 52)"
  define n where "n = round_even (x / u)"
  have e0: "ilog2 x \<le> e0" "e0 \<le> e" unfolding e0_def using assms by simp_all
  have u: "0 < u" unfolding u_def by simp
  have "x < 2 powi (ilog2 x + 1)" by (rule ilog2_bounds[OF assms(1)])
  also have "\<dots> \<le> 2 powi (e0 + 1)" using e0 by (intro powi2_mono) simp
  also have "\<dots> = of_int (2 ^ 53) * u" unfolding u_def by (rule powi2_53[symmetric])
  finally have "x / u < of_int (2 ^ 53)" using u by (simp only: pos_divide_less_eq)
  then have "x / u \<le> of_int (2 ^ 53)" by (rule less_imp_le)
  then have n1: "n \<le> 2 ^ 53" unfolding n_def by (rule round_even_le)
  have n0: "0 \<le> n" unfolding n_def using assms(1) u by (intro round_even_nonneg) simp
  have "of_int n \<le> (of_int (2 ^ 53) :: rat)" using n1 by (simp only: of_int_le_iff)
  then have "of_int n * u \<le> of_int (2 ^ 53) * u"
    using less_imp_le[OF u] by (rule mult_right_mono)
  also have "\<dots> = 2 powi (e0 + 1)" unfolding u_def by (rule powi2_53)
  finally have y1: "of_int n * u \<le> 2 powi (e0 + 1)" .
  also have "\<dots> \<le> 2 powi (e + 1)" using e0 by (intro powi2_mono) simp
  finally have y2: "of_int n * u \<le> 2 powi (e + 1)" .
  also have "\<dots> < 2 powi 1024" using assms(4) by (intro powi2_strict) simp
  finally have y3: "of_int n * u < 2 powi 1024" .
  have y0: "0 \<le> of_int n * u" using n0 u by simp
  have "fl_pos x = Num (of_int n * u)"
    unfolding fl_pos_def Let_def e0_def[symmetric] u_def[symmetric] n_def[symmetric]
    using y3 by simp
  then show ?thesis using y0 y2 by blast
qed

lemma fl_pos_lower:
  assumes "0 < x" and "- 1022 \<le> ilog2 x"
  shows "fl_pos x = PInf \<or> (\<exists>y. fl_pos x = Num y \<and> 2 powi (ilog2 x) \<le> y)"
proof -
  define e0 where "e0 = ilog2 x"
  define u :: rat where "u = 2 powi (e0 - 52)"
  define n where "n = round_even (x / u)"
  have m: "max (ilog2 x) (- 1022) = e0" unfolding e0_def using assms(2) by simp
  have u: "0 < u" unfolding u_def by simp
  have "of_int (2 ^ 52) * u = 2 powi e0" unfolding u_def by (rule powi2_52)
  also have "\<dots> \<le> x" unfolding e0_def by (rule ilog2_bounds[OF assms(1)])
  finally have "of_int (2 ^ 52) \<le> x / u" using u by (simp only: pos_le_divide_eq)
  then have n1: "2 ^ 52 \<le> n" unfolding n_def by (rule round_even_ge)
  have "2 powi e0 = of_int (2 ^ 52) * u" unfolding u_def by (rule powi2_52[symmetric])
  also have "\<dots> \<le> of_int n * u"
  proof -
    have "(of_int (2 ^ 52) :: rat) \<le> of_int n" using n1 by (simp only: of_int_le_iff)
    then show ?thesis using less_imp_le[OF u] by (rule mult_right_mono)
  qed
  finally have y: "2 powi e0 \<le> of_int n * u" .
  have "fl_pos x = (if of_int n * u < 2 powi 1024 then Num (of_int n * u) else PInf)"
    unfolding fl_pos_def Let_def m u_def[symmetric] n_def[symmetric] by simp
  then show ?thesis using y unfolding e0_def by auto
qed

lemma fl_pos_near:
  assumes "0 < x" and "- 1022 \<le> ilog2 x" and "ilog2 x < 1023"
  shows "\<exists>y. fl_pos x = Num y \<and> \<bar>y - x\<bar> \<le> x * 2 powi (- 53)"
proof -
  define e0 where "e0 = ilog2 x"
  define u :: rat where "u = 2 powi (e0 - 52)"
  define n where "n = round_even (x / u)"
  have m: "max (ilog2 x) (- 1022) = e0" unfolding e0_def using assms(2) by simp
  have u: "0 < u" unfolding u_def by simp
  from fl_pos_upper[OF assms(1) order_refl assms(2,3)]
  obtain y where y: "fl_pos x = Num y" by blast
  have "fl_pos x = (if of_int n * u < 2 powi 1024 then Num (of_int n * u) else PInf)"
    unfolding fl_pos_def Let_def m u_def[symmetric] n_def[symmetric] by simp
  with y have yn: "y = of_int n * u" by (auto split: if_splits)
  have d: "(of_int n - x / u) * u = of_int n * u - x"
    using u by (simp add: left_diff_distrib)
  have "\<bar>of_int n * u - x\<bar> = \<bar>of_int n - x / u\<bar> * u"
    unfolding d[symmetric] using u by (intro abs_mult_pos[symmetric]) simp
  also have "\<dots> \<le> 1 / 2 * u"
    unfolding n_def using round_even_near less_imp_le[OF u] by (rule mult_right_mono)
  also have "\<dots> = 2 powi e0 * 2 powi (- 53)"
    unfolding u_def by (rule powi2_half)
  also have "\<dots> \<le> x * 2 powi (- 53)"
    using ilog2_bounds(1)[OF assms(1)] unfolding e0_def by (intro mult_right_mono) simp_all
  finally have "\<bar>y - x\<bar> \<le> x * 2 powi (- 53)" unfolding yn .
  with y show ?thesis by blast
qed

lemma fl_pos_nonneg:
  assumes "0 < x"
  shows "fl_pos x = PInf \<or> (\<exists>y\<ge>0. fl_pos x = Num y)"
proof -
  define u :: rat where "u = 2 powi (max (ilog2 x) (- 1022) - 52)"
  have u: "0 < u" unfolding u_def by simp
  have "0 \<le> round_even (x / u)" using assms u by (intro round_even_nonneg) simp
  then have "0 \<le> of_int (round_even (x / u)) * u" using u by simp
  then show ?thesis unfolding fl_pos_def Let_def u_def[symmetric] by auto
qed

lemma ilog2_less:
  assumes "0 < x" and "x < 2 powi k"
  shows "ilog2 x < k"
proof (rule ccontr)
  assume "\<not> ilog2 x < k"
  then have "2 powi k \<le> (2::rat) powi (ilog2 x)" by (intro powi2_mono) simp
  then show False using ilog2_bounds(1)[OF assms(1)] assms(2) by linarith
qed

lemma ilog2_ge:
  assumes "0 < x" and "2 powi k \<le> x"
  shows "k \<le> ilog2 x"
proof (rule ccontr)
  assume "\<not> k \<le> ilog2 x"
  then have "2 powi (ilog2 x + 1) \<le> (2::rat) powi k" by (intro powi2_mono) simp
  then show False using ilog2_bounds(2)[OF assms(1)] assms(2) by linarith
qed

lemma fl_pos_unit:
  assumes "1 / 2 \<le> x" and "x < 1"
  shows "fl_pos x = Num (of_int (round_even (x * 2 ^ 53)) / 2 ^ 53)"
proof -
  have i: "ilog2 x = - 1" using assms by (intro ilog2_eqI) simp_all
  have "x * 2 ^ 53 \<le> of_int (2 ^ 53)" using assms(2) by simp
  then have "round_even (x * 2 ^ 53) \<le> 2 ^ 53" by (rule round_even_le)
  then have "(of_int (round_even (x * 2 ^ 53)) :: rat) \<le> of_int (2 ^ 53)"
    by (simp only: of_int_le_iff)
  then have "(of_int (round_even (x * 2 ^ 53)) :: rat) / 2 ^ 53 < 2 powi 1024"
    by simp
  then show ?thesis unfolding fl_pos_def Let_def i by simp
qed

lemma threshold_value: "completionThreshold = Num (8106479329266893 / 9007199254740992)"
proof -
  have f: "\<lfloor>(40532396646334464 :: rat) / 5\<rfloor> = 8106479329266892"
    by (rule floor_unique) simp_all
  have "round_even (9 / 10 * 2 ^ 53) = 8106479329266893"
    by (simp add: round_even_def Let_def f)
  then show ?thesis
    unfolding completionThreshold_def fl_def by (simp add: fl_pos_unit)
qed

text \<open>
  The quotients that reach the threshold: the double nearest to \<open>x\<close> is at least the
  double \<^verbatim>\<open>0.9\<close> exactly when \<open>x\<close> lies above the midpoint between \<^verbatim>\<open>0.9\<close> and the
  double before it (the tie goes to the even neighbour, which is the lower one).
\<close>

lemma fl_ge_threshold:
  "js_ge (fl x) completionThreshold \<longleftrightarrow> 16212958658533785 / 18014398509481984 < x"
proof -
  consider "x = 0" | "x < 0" | "0 < x" "x < 1 / 2" | "1 / 2 \<le> x" "x < 1" | "1 \<le> x"
    by linarith
  then show ?thesis
  proof cases
    case 1
    then show ?thesis by (simp add: fl_def threshold_value js_ge_def)
  next
    case 2
    then have "0 < - x" by simp
    from fl_pos_nonneg[OF this] 2 show ?thesis
      by (auto simp: fl_def threshold_value js_ge_def)
  next
    case 3
    have "x < 2 powi (- 1)" using 3(2) by simp
    then have "ilog2 x < - 1" by (rule ilog2_less[OF 3(1)])
    then have "ilog2 x \<le> - 2" by simp
    from fl_pos_upper[OF 3(1) this]
    obtain y where y: "fl_pos x = Num y" "y \<le> 2 powi (- 2 + 1)" by auto
    then have "y \<le> 1 / 2" by simp
    then show ?thesis using 3 y(1) by (simp add: fl_def threshold_value js_ge_def)
  next
    case 4
    have o: "odd (8106479329266893 :: int)" by simp
    have "js_ge (fl x) completionThreshold
            \<longleftrightarrow> 8106479329266893 \<le> round_even (x * 2 ^ 53)"
      using 4 by (simp add: fl_def fl_pos_unit threshold_value js_ge_def divide_le_cancel)
    also have "\<dots> \<longleftrightarrow> of_int 8106479329266893 - 1 / 2 < x * 2 ^ 53"
      by (rule round_even_odd[OF o])
    also have "\<dots> \<longleftrightarrow> 16212958658533785 / 18014398509481984 < x"
      by (simp add: mult.commute)
    finally show ?thesis .
  next
    case 5
    then have p: "0 < x" by simp
    have "2 powi 0 \<le> x" using 5 by simp
    then have i: "0 \<le> ilog2 x" by (rule ilog2_ge[OF p])
    then have "(2::rat) powi 0 \<le> 2 powi (ilog2 x)" by (rule powi2_mono)
    then have o: "1 \<le> (2::rat) powi (ilog2 x)" by simp
    have "- 1022 \<le> ilog2 x" using i by simp
    from fl_pos_lower[OF p this] o show ?thesis
      using 5 p by (auto simp: fl_def threshold_value js_ge_def)
  qed
qed

lemma round_even_eqI:
  assumes "\<bar>q - of_int n\<bar> < 1 / 2"
  shows "round_even q = n"
proof -
  have "\<bar>(of_int (round_even q) :: rat) - of_int n\<bar> < 1"
    using round_even_near[of q] assms by linarith
  then have "\<bar>(of_int (round_even q - n) :: rat)\<bar> < of_int 1"
    by simp
  then have "\<bar>round_even q - n\<bar> < 1"
    by (simp only: of_int_abs[symmetric] of_int_less_iff)
  then show ?thesis by simp
qed

lemma fl_pos_range:
  assumes "2 powi e \<le> x" and "x < 2 powi (e + 1)" and "- 1022 \<le> e" and "e < 1023"
  shows "fl_pos x = Num (of_int (round_even (x / 2 powi (e - 52))) * 2 powi (e - 52))"
proof -
  have p: "0 < x" using assms(1) powi2_pos[of e] by linarith
  have i: "ilog2 x = e" using assms(1,2) by (rule ilog2_eqI)
  have m: "max (ilog2 x) (- 1022) = e" unfolding i using assms(3) by simp
  from fl_pos_upper[OF p _ assms(3,4)] i
  obtain y where y: "fl_pos x = Num y" by auto
  let ?y = "of_int (round_even (x / 2 powi (e - 52))) * 2 powi (e - 52) :: rat"
  have "fl_pos x = (if ?y < 2 powi 1024 then Num ?y else PInf)"
    unfolding fl_pos_def Let_def m by simp
  with y show ?thesis by (auto split: if_splits)
qed

lemma fl_23_of_40: "fl (23 / 40) = Num (2589569785738035 / 4503599627370496)"
proof -
  have r: "round_even (23 / 40 * 2 ^ 53) = 5179139571476070"
    by (rule round_even_eqI) simp
  have "fl_pos (23 / 40) = Num (of_int (round_even (23 / 40 / 2 powi (- 1 - 52))) * 2 powi (- 1 - 52))"
    by (rule fl_pos_range) simp_all
  then show ?thesis using r by (simp add: fl_def)
qed

lemma fl_23_of_40_percent:
  "fl (2589569785738035 / 4503599627370496 * 100) = Num (8092405580431359 / 140737488355328)"
proof -
  have r: "round_even (2589569785738035 / 4503599627370496 * 100 * 2 ^ 47) = 8092405580431359"
    by (rule round_even_eqI) simp
  have "fl_pos (2589569785738035 / 4503599627370496 * 100)
      = Num (of_int (round_even (2589569785738035 / 4503599627370496 * 100 / 2 powi (5 - 52)))
               * 2 powi (5 - 52))"
    by (rule fl_pos_range) simp_all
  then show ?thesis using r by (simp add: fl_def)
qed

lemma percent_23_of_40:
  "math_round (js_mul (js_div (Num 23) (Num 40)) (Num 100)) = Num 57"
proof -
  have "\<lfloor>(8092405580431359 / 140737488355328 :: rat) + 1 / 2\<rfloor> = 57"
    by (rule floor_unique) simp_all
  then show ?thesis using fl_23_of_40 fl_23_of_40_percent by simp
qed

subsection \<open>Reading a row back after an update\<close>

lemma find_map_upd:
  "find (\<lambda>v. v_id v = i) xs = Some v \<Longrightarrow> v_id (f v) = i \<Longrightarrow>
   find (\<lambda>v. v_id v = i) (map (\<lambda>v. if v_id v = i then f v else v) xs) = Some (f v)"
  by (induction xs) (auto split: if_splits)

lemma get_video_id: "get_video d i = Some video \<Longrightarrow> v_id video = i"
  by (auto simp: get_video_def find_Some_iff)


lemma updateStatus_ok:
  assumes "get_video d i = Some video" and "map_of validStatuses st = Some s"
  shows "updateStatus d i st =
     Inr (Some (video\<lparr>v_status := s,
                       v_position := (if s = Unwatched then Num 0 else v_position video)\<rparr>),
          d\<lparr>tbl_videos := map (\<lambda>v. if v_id v = i
                 then v\<lparr>v_status := s,
                        v_position := (if s = Unwatched then Num 0 else v_position video)\<rparr>
                 else v) (tbl_videos d)\<rparr>)"
proof -
  let ?f = "\<lambda>v. v\<lparr>v_status := s,
                   v_position := (if s = Unwatched then Num 0 else v_position video)\<rparr>"
  have "find (\<lambda>v. v_id v = i) (map (\<lambda>v. if v_id v = i then ?f v else v) (tbl_videos d))
          = Some (?f video)"
    using assms(1) get_video_id[OF assms(1)] by (intro find_map_upd) (auto simp: get_video_def)
  then show ?thesis
    using assms by (simp add: updateStatus_def get_video_def Let_def)
qed



lemma scan_test_file:
  "scanVideos empty_db [test_file] = Inr (\<lparr>total = 1, added = 1, existing = 0\<rparr>, scanned_db)"
  by (simp add: scanVideos_def test_file_def empty_db_def getOrCreateModule_def
      insert_video_def next_rowid_def scanned_db_def test_video_def)

subsection \<open>The duration a call uses\<close>






subsection \<open>Status derivation\<close>







subsection \<open>Status under position updates\<close>
















subsection \<open>The stored duration\<close>

lemma up_started:
  "updatePosition scanned_db 1 (JNumber (Num 120)) (Some (Num 600))
     = Inr (Some started_video, started_db)"
  by (simp add: updatePosition_def get_video_def scanned_db_def empty_db_def test_video_def
      started_video_def started_db_def newStatus_def js_or_def js_truthy_def js_gt_def
      coalesce_def Let_def fl_ge_threshold)

lemma up_started_zero:
  "updatePosition started_db 1 (JNumber (Num 550)) (Some (Num 0))
       = Inr (Some (started_video\<lparr>v_position := Num 550, v_duration := Num 0,
                                  v_status := Completed\<rparr>),
              started_db\<lparr>tbl_videos :=
                [started_video\<lparr>v_position := Num 550, v_duration := Num 0,
                               v_status := Completed\<rparr>]\<rparr>)"
  by (simp add: updatePosition_def get_video_def scanned_db_def empty_db_def test_video_def
      started_video_def started_db_def newStatus_def js_or_def js_truthy_def js_gt_def
      coalesce_def Let_def fl_ge_threshold)

text \<open>
  C3. The specification says that the effective duration of a call is the supplied
  duration when it is present and positive and the stored one otherwise, and that a
  stored positive duration is only ever overwritten by a supplied positive duration,
  never reset to zero. The code breaks the second part. The video below has the stored
  duration 600; the call \<^verbatim>\<open>updatePosition(1, 550, 0)\<close> derives the status from the
  stored 600 (550 / 600 is above the threshold, so the video is completed) and writes
  the duration 0 over it: \<^verbatim>\<open>duration || video.duration\<close> takes 0 as missing,
  \<^verbatim>\<open>COALESCE(?, duration)\<close> does not.
\<close>

theorem duration_reset_to_zero:
  "updatePosition scanned_db 1 (JNumber (Num 120)) (Some (Num 600))
     = Inr (Some started_video, started_db)
   \<and> v_duration started_video = Num 600
   \<and> updatePosition started_db 1 (JNumber (Num 550)) (Some (Num 0))
       = Inr (Some (started_video\<lparr>v_position := Num 550, v_duration := Num 0,
                                  v_status := Completed\<rparr>),
              started_db\<lparr>tbl_videos :=
                [started_video\<lparr>v_position := Num 550, v_duration := Num 0,
                               v_status := Completed\<rparr>]\<rparr>)"
  by (simp add: up_started up_started_zero started_video_def)

subsection \<open>Unwatched videos\<close>

lemma up_nan:
  "updatePosition scanned_db 1 (JNumber NaN) None
     = Inr (Some (test_video\<lparr>v_position := NaN\<rparr>),
            scanned_db\<lparr>tbl_videos := [test_video\<lparr>v_position := NaN\<rparr>]\<rparr>)"
  by (simp add: updatePosition_def get_video_def scanned_db_def empty_db_def test_video_def
      newStatus_def js_or_def js_truthy_def js_gt_def coalesce_def Let_def)

lemma reachable_scanned: "reachable scanned_db"
  using reachable_scan[OF reachable_init scan_test_file] .

lemma reachable_nan: "reachable (scanned_db\<lparr>tbl_videos := [test_video\<lparr>v_position := NaN\<rparr>]\<rparr>)"
  using reachable_position[OF reachable_scanned up_nan] .

text \<open>
  C7. The specification says that in every store reached through scan,
  \<^verbatim>\<open>recordPosition\<close> and \<^verbatim>\<open>setStatus\<close> an unwatched video has position 0. The code
  breaks it for the position \<^verbatim>\<open>NaN\<close>, which passes the validation of
  \<^verbatim>\<open>updatePosition\<close> (its type is \<^verbatim>\<open>'number'\<close> and \<^verbatim>\<open>NaN < 0\<close> is false) although
  it is not "a non-negative number", as the message of the validation has it. On the
  freshly scanned video the call \<^verbatim>\<open>updatePosition(1, NaN)\<close> leaves the status
  unwatched, since \<^verbatim>\<open>NaN > 0\<close> is false, and writes the position, which SQLite stores
  as \<^verbatim>\<open>NULL\<close>.
\<close>

theorem unwatched_position_not_zero:
  "scanVideos empty_db [test_file] = Inr (\<lparr>total = 1, added = 1, existing = 0\<rparr>, scanned_db)
   \<and> updatePosition scanned_db 1 (JNumber NaN) None
       = Inr (Some (test_video\<lparr>v_position := NaN\<rparr>),
              scanned_db\<lparr>tbl_videos := [test_video\<lparr>v_position := NaN\<rparr>]\<rparr>)
   \<and> reachable (scanned_db\<lparr>tbl_videos := [test_video\<lparr>v_position := NaN\<rparr>]\<rparr>)
   \<and> v_status (test_video\<lparr>v_position := NaN\<rparr>) = Unwatched
   \<and> v_position (test_video\<lparr>v_position := NaN\<rparr>) \<noteq> Num 0"
  using scan_test_file up_nan reachable_nan by (simp add: test_video_def)

subsection \<open>The scan\<close>

lemma untitled_fields:
  assumes "untitled v' = untitled v"
  shows "v_id v' = v_id v" "v_path v' = v_path v" "v_filename v' = v_filename v"
    "v_duration v' = v_duration v" "v_position v' = v_position v" "v_status v' = v_status v"
    "v_module_id v' = v_module_id v" "v_sort_order v' = v_sort_order v"
proof -
  have "v_id (untitled v') = v_id (untitled v)" "v_path (untitled v') = v_path (untitled v)"
    "v_filename (untitled v') = v_filename (untitled v)"
    "v_duration (untitled v') = v_duration (untitled v)"
    "v_position (untitled v') = v_position (untitled v)"
    "v_status (untitled v') = v_status (untitled v)"
    "v_module_id (untitled v') = v_module_id (untitled v)"
    "v_sort_order (untitled v') = v_sort_order (untitled v)"
    using assms by simp_all
  then show "v_id v' = v_id v" "v_path v' = v_path v" "v_filename v' = v_filename v"
    "v_duration v' = v_duration v" "v_position v' = v_position v" "v_status v' = v_status v"
    "v_module_id v' = v_module_id v" "v_sort_order v' = v_sort_order v"
    by (simp_all add: untitled_def)
qed

lemma retitled_refl: "retitled T v v"
  by (simp add: retitled_def)

lemma retitled_trans: "retitled S u v \<Longrightarrow> retitled T v w \<Longrightarrow> retitled (S \<union> T) u w"
  by (auto simp: retitled_def)

lemma retitled_mono: "retitled S u v \<Longrightarrow> S \<subseteq> T \<Longrightarrow> retitled T u v"
  by (auto simp: retitled_def)

lemma retitled_set_title: "retitled {t} v (if c then v\<lparr>v_title := t\<rparr> else v)"
  by (simp add: retitled_def untitled_def)

lemma getOrCreateModule_ok:
  "\<exists>moduleId d1. getOrCreateModule d mp mn = Inr (moduleId, d1)
      \<and> tbl_videos d1 = tbl_videos d \<and> seq_videos d1 = seq_videos d
      \<and> tbl_notes d1 = tbl_notes d \<and> seq_notes d1 = seq_notes d"
  by (auto simp: getOrCreateModule_def insert_module_def Let_def split: option.splits)

text \<open>One round of the loop.\<close>

lemma reconcile_existing:
  assumes "find (\<lambda>v. v_path v = f_path f) (tbl_videos d) = Some ex"
  shows "\<exists>d1. reconcile d (f # rest) a u = reconcile d1 rest a (u + 1)
           \<and> tbl_videos d1
               = map (\<lambda>v. if v_id v = v_id ex then v\<lparr>v_title := f_title f\<rparr> else v) (tbl_videos d)
           \<and> tbl_notes d1 = tbl_notes d \<and> tbl_modules d1 = tbl_modules d
           \<and> seq_videos d1 = seq_videos d \<and> seq_modules d1 = seq_modules d
           \<and> seq_notes d1 = seq_notes d"
proof -
  let ?d1 = "d\<lparr>tbl_videos :=
      map (\<lambda>v. if v_id v = v_id ex then v\<lparr>v_title := f_title f\<rparr> else v) (tbl_videos d)\<rparr>"
  have "reconcile d (f # rest) a u = reconcile ?d1 rest a (u + 1)"
    using assms by simp
  then show ?thesis
    by (intro exI[of _ ?d1]) simp
qed

lemma reconcile_new:
  assumes "find (\<lambda>v. v_path v = f_path f) (tbl_videos d) = None"
  shows "\<exists>d1 moduleId. reconcile d (f # rest) a u = reconcile d1 rest (a + 1) u
           \<and> tbl_videos d1 = tbl_videos d @
                 [\<lparr>v_id = next_rowid (seq_videos d) (map v_id (tbl_videos d)),
                   v_path = f_path f, v_filename = f_filename f, v_title = f_title f,
                   v_duration = Num 0, v_position = Num 0, v_status = Unwatched,
                   v_module_id = moduleId, v_sort_order = f_sortOrder f\<rparr>]
           \<and> tbl_notes d1 = tbl_notes d"
proof -
  from getOrCreateModule_ok[of d "f_modulePath f" "f_moduleName f"]
  obtain moduleId d0
    where g: "getOrCreateModule d (f_modulePath f) (f_moduleName f) = Inr (moduleId, d0)"
      and e: "tbl_videos d0 = tbl_videos d" "seq_videos d0 = seq_videos d"
        "tbl_notes d0 = tbl_notes d"
    by blast
  let ?row = "\<lparr>v_id = next_rowid (seq_videos d) (map v_id (tbl_videos d)),
                   v_path = f_path f, v_filename = f_filename f, v_title = f_title f,
                   v_duration = Num 0, v_position = Num 0, v_status = Unwatched,
                   v_module_id = moduleId, v_sort_order = f_sortOrder f\<rparr>"
  let ?d1 = "d0\<lparr>tbl_videos := tbl_videos d @ [?row],
                 seq_videos := next_rowid (seq_videos d) (map v_id (tbl_videos d))\<rparr>"
  have "reconcile d (f # rest) a u = reconcile ?d1 rest (a + 1) u"
    using assms g e by (simp add: insert_video_def Let_def)
  then show ?thesis
    using e by (intro exI[of _ ?d1] exI[of _ moduleId]) simp
qed

text \<open>What a run of the loop does to the table of videos.\<close>

lemma reconcile_rows:
  "\<exists>a' u' d' olds news. reconcile d found a u = Inr (a', u', d')
      \<and> a' + u' = a + u + length found
      \<and> tbl_videos d' = olds @ news
      \<and> list_all2 (retitled (f_title ` set found)) (tbl_videos d) olds
      \<and> a' = a + length news
      \<and> (\<forall>v\<in>set news. v_duration v = Num 0 \<and> v_position v = Num 0 \<and> v_status v = Unwatched)
      \<and> tbl_notes d' = tbl_notes d"
proof (induction found arbitrary: d a u)
  case Nil
  show ?case
    by (intro exI[of _ a] exI[of _ u] exI[of _ d] exI[of _ "tbl_videos d"] exI[of _ "[]"])
       (simp add: list_all2_refl retitled_refl)
next
  case (Cons f rest)
  show ?case
  proof (cases "find (\<lambda>v. v_path v = f_path f) (tbl_videos d)")
    case (Some ex)
    from reconcile_existing[OF Some, of rest a u]
    obtain d1 where s: "reconcile d (f # rest) a u = reconcile d1 rest a (u + 1)"
      and v: "tbl_videos d1
               = map (\<lambda>v. if v_id v = v_id ex then v\<lparr>v_title := f_title f\<rparr> else v) (tbl_videos d)"
      and n: "tbl_notes d1 = tbl_notes d"
      by blast
    from Cons.IH[of d1 a "u + 1"]
    obtain a' u' d' olds news where r: "reconcile d1 rest a (u + 1) = Inr (a', u', d')"
      "a' + u' = a + (u + 1) + length rest" "tbl_videos d' = olds @ news"
      "list_all2 (retitled (f_title ` set rest)) (tbl_videos d1) olds"
      "a' = a + length news"
      "\<forall>v\<in>set news. v_duration v = Num 0 \<and> v_position v = Num 0 \<and> v_status v = Unwatched"
      "tbl_notes d' = tbl_notes d1"
      by blast
    have "list_all2 (retitled {f_title f}) (tbl_videos d) (tbl_videos d1)"
      unfolding v by (simp add: list_all2_conv_all_nth retitled_set_title)
    from list_all2_trans[where ?P1.0 = "retitled {f_title f}"
        and ?P2.0 = "retitled (f_title ` set rest)"
        and ?P3.0 = "retitled (f_title ` set (f # rest))", OF _ this r(4)]
    have "list_all2 (retitled (f_title ` set (f # rest))) (tbl_videos d) olds"
      using retitled_trans[of "{f_title f}" _ _ "f_title ` set rest"] by simp
    then show ?thesis
      using s r n
      by (intro exI[of _ a'] exI[of _ u'] exI[of _ d'] exI[of _ olds] exI[of _ news]) simp
  next
    case None
    from reconcile_new[OF None, of rest a u]
    obtain d1 moduleId where s: "reconcile d (f # rest) a u = reconcile d1 rest (a + 1) u"
      and v: "tbl_videos d1 = tbl_videos d @
                 [\<lparr>v_id = next_rowid (seq_videos d) (map v_id (tbl_videos d)),
                   v_path = f_path f, v_filename = f_filename f, v_title = f_title f,
                   v_duration = Num 0, v_position = Num 0, v_status = Unwatched,
                   v_module_id = moduleId, v_sort_order = f_sortOrder f\<rparr>]"
      and n: "tbl_notes d1 = tbl_notes d"
      by blast
    from Cons.IH[of d1 "a + 1" u]
    obtain a' u' d' olds news where r: "reconcile d1 rest (a + 1) u = Inr (a', u', d')"
      "a' + u' = (a + 1) + u + length rest" "tbl_videos d' = olds @ news"
      "list_all2 (retitled (f_title ` set rest)) (tbl_videos d1) olds"
      "a' = (a + 1) + length news"
      "\<forall>v\<in>set news. v_duration v = Num 0 \<and> v_position v = Num 0 \<and> v_status v = Unwatched"
      "tbl_notes d' = tbl_notes d1"
      by blast
    from r(4) obtain o1 row' where o: "olds = o1 @ [row']"
      "list_all2 (retitled (f_title ` set rest)) (tbl_videos d) o1"
      "retitled (f_title ` set rest)
         \<lparr>v_id = next_rowid (seq_videos d) (map v_id (tbl_videos d)),
                   v_path = f_path f, v_filename = f_filename f, v_title = f_title f,
                   v_duration = Num 0, v_position = Num 0, v_status = Unwatched,
                   v_module_id = moduleId, v_sort_order = f_sortOrder f\<rparr> row'"
      unfolding v by (auto simp: list_all2_append1 list_all2_Cons1)
    have fresh: "v_duration row' = Num 0 \<and> v_position row' = Num 0 \<and> v_status row' = Unwatched"
      using o(3) untitled_fields(4,5,6)[of row'] by (simp add: retitled_def)
    have "list_all2 (retitled (f_title ` set (f # rest))) (tbl_videos d) o1"
      using o(2) by (rule list_all2_mono) (auto intro: retitled_mono)
    then show ?thesis
      using s r n o(1) fresh
      by (intro exI[of _ a'] exI[of _ u'] exI[of _ d'] exI[of _ o1] exI[of _ "row' # news"])
         simp
  qed
qed

lemma find_path_Some: "find (\<lambda>v. v_path v = p) xs = Some ex \<Longrightarrow> p \<in> v_path ` set xs"
  by (auto simp: find_Some_iff)

lemma find_path_None: "find (\<lambda>v. v_path v = p) xs = None \<Longrightarrow> p \<notin> v_path ` set xs"
  by (auto simp: find_None_iff)

lemma map_path_set_title:
  "map v_path (map (\<lambda>v. if c v then v\<lparr>v_title := t\<rparr> else v) xs) = map v_path xs"
  by (induction xs) auto

lemma reconcile_paths:
  "reconcile d found a u = Inr (a', u', d') \<Longrightarrow>
   set (map v_path (tbl_videos d')) = set (map v_path (tbl_videos d)) \<union> f_path ` set found
   \<and> (distinct (map v_path (tbl_videos d)) \<longrightarrow> distinct (map v_path (tbl_videos d')))"
proof (induction found arbitrary: d a u)
  case Nil
  then show ?case by simp
next
  case (Cons f rest)
  show ?case
  proof (cases "find (\<lambda>v. v_path v = f_path f) (tbl_videos d)")
    case (Some ex)
    from reconcile_existing[OF Some, of rest a u]
    obtain d1 where s: "reconcile d (f # rest) a u = reconcile d1 rest a (u + 1)"
      and v: "tbl_videos d1
               = map (\<lambda>v. if v_id v = v_id ex then v\<lparr>v_title := f_title f\<rparr> else v) (tbl_videos d)"
      by blast
    have p: "map v_path (tbl_videos d1) = map v_path (tbl_videos d)"
      unfolding v by (rule map_path_set_title)
    have "f_path f \<in> set (map v_path (tbl_videos d))"
      using find_path_Some[OF Some] by simp
    then show ?thesis
      using Cons.IH[of d1 a "u + 1"] Cons.prems s p by auto
  next
    case None
    from reconcile_new[OF None, of rest a u]
    obtain d1 moduleId where s: "reconcile d (f # rest) a u = reconcile d1 rest (a + 1) u"
      and v: "tbl_videos d1 = tbl_videos d @
                 [\<lparr>v_id = next_rowid (seq_videos d) (map v_id (tbl_videos d)),
                   v_path = f_path f, v_filename = f_filename f, v_title = f_title f,
                   v_duration = Num 0, v_position = Num 0, v_status = Unwatched,
                   v_module_id = moduleId, v_sort_order = f_sortOrder f\<rparr>]"
      by blast
    have p: "map v_path (tbl_videos d1) = map v_path (tbl_videos d) @ [f_path f]"
      unfolding v by simp
    have "f_path f \<notin> set (map v_path (tbl_videos d))"
      using find_path_None[OF None] by simp
    then show ?thesis
      using Cons.IH[of d1 "a + 1" u] Cons.prems s p by auto
  qed
qed

lemma reconcile_all_existing:
  "f_path ` set found \<subseteq> v_path ` set (tbl_videos d) \<Longrightarrow>
   \<exists>d'. reconcile d found a u = Inr (a, u + length found, d')
      \<and> list_all2 (retitled (f_title ` set found)) (tbl_videos d) (tbl_videos d')
      \<and> tbl_modules d' = tbl_modules d \<and> tbl_notes d' = tbl_notes d"
proof (induction found arbitrary: d u)
  case Nil
  show ?case
    by (intro exI[of _ d]) (simp add: list_all2_refl retitled_refl)
next
  case (Cons f rest)
  have "f_path f \<in> v_path ` set (tbl_videos d)"
    using Cons.prems by simp
  then obtain ex where e: "find (\<lambda>v. v_path v = f_path f) (tbl_videos d) = Some ex"
    using find_path_None[of "f_path f" "tbl_videos d"] by (cases "find (\<lambda>v. v_path v = f_path f) (tbl_videos d)") auto
  from reconcile_existing[OF e, of rest a u]
  obtain d1 where s: "reconcile d (f # rest) a u = reconcile d1 rest a (u + 1)"
    and v: "tbl_videos d1
             = map (\<lambda>v. if v_id v = v_id ex then v\<lparr>v_title := f_title f\<rparr> else v) (tbl_videos d)"
    and n: "tbl_notes d1 = tbl_notes d" "tbl_modules d1 = tbl_modules d"
    by blast
  have p: "map v_path (tbl_videos d1) = map v_path (tbl_videos d)"
    unfolding v by (rule map_path_set_title)
  have "v_path ` set (tbl_videos d1) = v_path ` set (tbl_videos d)"
    using arg_cong[OF p, of set] by simp
  then have sub: "f_path ` set rest \<subseteq> v_path ` set (tbl_videos d1)"
    using Cons.prems by simp
  from Cons.IH[OF sub, of "u + 1"]
  obtain d' where r: "reconcile d1 rest a (u + 1) = Inr (a, u + 1 + length rest, d')"
    "list_all2 (retitled (f_title ` set rest)) (tbl_videos d1) (tbl_videos d')"
    "tbl_modules d' = tbl_modules d1" "tbl_notes d' = tbl_notes d1"
    by blast
  have "list_all2 (retitled {f_title f}) (tbl_videos d) (tbl_videos d1)"
    unfolding v by (simp add: list_all2_conv_all_nth retitled_set_title)
  from list_all2_trans[where ?P1.0 = "retitled {f_title f}"
      and ?P2.0 = "retitled (f_title ` set rest)"
      and ?P3.0 = "retitled (f_title ` set (f # rest))", OF _ this r(2)]
  have "list_all2 (retitled (f_title ` set (f # rest))) (tbl_videos d) (tbl_videos d')"
    using retitled_trans[of "{f_title f}" _ _ "f_title ` set rest"] by simp
  then show ?case
    using s r n by (intro exI[of _ d']) simp
qed

lemma list_all2_retitled_map:
  assumes "list_all2 (retitled T) xs ys"
  shows "map v_id ys = map v_id xs" "map v_path ys = map v_path xs"
    "map untitled ys = map untitled xs"
  using assms
  by (induction rule: list_all2_induct) (auto simp: retitled_def dest: untitled_fields)

lemma scan_rows:
  assumes "scanVideos d videos = Inr (r, d')"
  shows "\<exists>olds news. tbl_videos d' = olds @ news
      \<and> list_all2 (retitled (f_title ` set videos)) (tbl_videos d) olds
      \<and> added r = length news \<and> added r + existing r = length videos
      \<and> total r = length videos
      \<and> (\<forall>v\<in>set news. v_duration v = Num 0 \<and> v_position v = Num 0 \<and> v_status v = Unwatched)
      \<and> tbl_notes d' = tbl_notes d"
proof -
  from reconcile_rows[of d videos 0 0]
  obtain a' u' d'' olds news where r: "reconcile d videos 0 0 = Inr (a', u', d'')"
    "a' + u' = 0 + 0 + length videos" "tbl_videos d'' = olds @ news"
    "list_all2 (retitled (f_title ` set videos)) (tbl_videos d) olds"
    "a' = 0 + length news"
    "\<forall>v\<in>set news. v_duration v = Num 0 \<and> v_position v = Num 0 \<and> v_status v = Unwatched"
    "tbl_notes d'' = tbl_notes d"
    by blast
  have "r = \<lparr>total = length videos, added = a', existing = u'\<rparr>" "d' = d''"
    using assms r(1) by (simp_all add: scanVideos_def)
  then show ?thesis
    using r by (intro exI[of _ olds] exI[of _ news]) simp
qed

lemma scan_total: "\<exists>r d'. scanVideos d videos = Inr (r, d')"
proof -
  from reconcile_rows[of d videos 0 0]
  obtain a' u' d'' where "reconcile d videos 0 0 = Inr (a', u', d'')"
    by blast
  then show ?thesis
    by (simp add: scanVideos_def)
qed

lemma scan_paths:
  assumes "scanVideos d videos = Inr (r, d')"
  shows "set (map v_path (tbl_videos d')) = set (map v_path (tbl_videos d)) \<union> f_path ` set videos"
    and "distinct (map v_path (tbl_videos d)) \<Longrightarrow> distinct (map v_path (tbl_videos d'))"
proof -
  obtain a' u' where "reconcile d videos 0 0 = Inr (a', u', d')"
    using assms by (auto simp: scanVideos_def split: sum.splits)
  from reconcile_paths[OF this]
  show "set (map v_path (tbl_videos d')) = set (map v_path (tbl_videos d)) \<union> f_path ` set videos"
    and "distinct (map v_path (tbl_videos d)) \<Longrightarrow> distinct (map v_path (tbl_videos d'))"
    by simp_all
qed

lemma rescan:
  assumes "scanVideos d videos = Inr (r, d1)"
  shows "\<exists>d2. scanVideos d1 videos
            = Inr (\<lparr>total = length videos, added = 0, existing = length videos\<rparr>, d2)
         \<and> list_all2 (retitled (f_title ` set videos)) (tbl_videos d1) (tbl_videos d2)
         \<and> tbl_modules d2 = tbl_modules d1 \<and> tbl_notes d2 = tbl_notes d1"
proof -
  have "f_path ` set videos \<subseteq> v_path ` set (tbl_videos d1)"
    using scan_paths(1)[OF assms] by auto
  from reconcile_all_existing[OF this, of 0 0]
  obtain d2 where "reconcile d1 videos 0 0 = Inr (0, 0 + length videos, d2)"
    "list_all2 (retitled (f_title ` set videos)) (tbl_videos d1) (tbl_videos d2)"
    "tbl_modules d2 = tbl_modules d1" "tbl_notes d2 = tbl_notes d1"
    by blast
  then show ?thesis
    by (intro exI[of _ d2]) (simp add: scanVideos_def)
qed

lemma updatePosition_Inr:
  assumes "updatePosition d i pos dur = Inr (r, d')"
  shows "\<exists>p video. pos = JNumber p \<and> \<not> js_lt p (Num 0) \<and> get_video d i = Some video
     \<and> tbl_videos d' = map (\<lambda>v. if v_id v = i
                 then v\<lparr>v_position := p, v_duration := coalesce dur (v_duration v),
                        v_status := newStatus video p dur\<rparr> else v) (tbl_videos d)
     \<and> tbl_notes d' = tbl_notes d"
  using assms
  by (auto simp: updatePosition_def Let_def split: jsval.splits if_splits option.splits)

lemma updateStatus_Inr:
  assumes "updateStatus d i st = Inr (r, d')"
  shows "\<exists>s video. map_of validStatuses st = Some s \<and> get_video d i = Some video
     \<and> tbl_videos d' = map (\<lambda>v. if v_id v = i
                 then v\<lparr>v_status := s,
                        v_position := (if s = Unwatched then Num 0 else v_position video)\<rparr>
                 else v) (tbl_videos d)
     \<and> tbl_notes d' = tbl_notes d"
  using assms
  by (auto simp: updateStatus_def Let_def split: option.splits)

lemma saveNotes_videos:
  assumes "saveNotes d i c = Inr (n, d')"
  shows "tbl_videos d' = tbl_videos d"
  using assms
  by (auto simp: saveNotes_def getNotes_def upsert_notes_def get_video_def Let_def
      split: option.splits if_splits)

lemma list_all2_retitled_in_set:
  assumes "list_all2 (retitled T) xs ys" and "y \<in> set ys"
  shows "\<exists>x\<in>set xs. retitled T x y"
  using assms by (induction rule: list_all2_induct) auto

lemma reachable_distinct_paths:
  "reachable d \<Longrightarrow> distinct (map v_path (tbl_videos d))"
proof (induction rule: reachable.induct)
  case reachable_init
  show ?case by (simp add: empty_db_def)
next
  case (reachable_scan d videos r d')
  then show ?case using scan_paths(2) by blast
next
  case (reachable_position d videoId position duration v d')
  from updatePosition_Inr[OF reachable_position.hyps(2)]
  obtain p video where u:
    "tbl_videos d' = map (\<lambda>v. if v_id v = videoId
                 then v\<lparr>v_position := p, v_duration := coalesce duration (v_duration v),
                        v_status := newStatus video p duration\<rparr> else v) (tbl_videos d)"
    by blast
  have "map v_path (tbl_videos d') = map v_path (tbl_videos d)"
    unfolding u by (induction "tbl_videos d") auto
  then show ?case using reachable_position.IH by simp
next
  case (reachable_status d videoId st v d')
  from updateStatus_Inr[OF reachable_status.hyps(2)]
  obtain s and video :: video where u:
    "tbl_videos d' = map (\<lambda>v. if v_id v = videoId
                 then v\<lparr>v_status := s,
                        v_position := (if s = Unwatched then Num 0 else v_position video)\<rparr>
                 else v) (tbl_videos d)"
    by blast
  have "map v_path (tbl_videos d') = map v_path (tbl_videos d)"
    unfolding u by (induction "tbl_videos d") auto
  then show ?case using reachable_status.IH by simp
next
  case (reachable_notes d videoId content n d')
  then show ?case using saveNotes_videos[OF reachable_notes.hyps(2)] by simp
qed

lemma retitled_fields:
  assumes "retitled T v v'"
  shows "v_id v' = v_id v \<and> v_path v' = v_path v \<and> v_filename v' = v_filename v
       \<and> v_duration v' = v_duration v \<and> v_position v' = v_position v
       \<and> v_status v' = v_status v \<and> v_module_id v' = v_module_id v
       \<and> v_sort_order v' = v_sort_order v
       \<and> (v_title v' = v_title v \<or> v_title v' \<in> T)"
  using assms untitled_fields[of v' v] by (simp add: retitled_def)

lemma rescan_started:
  "scanVideos started_db [renamed_file]
     = Inr (\<lparr>total = 1, added = 0, existing = 1\<rparr>,
            started_db\<lparr>tbl_videos := [started_video\<lparr>v_title := ''Test Video''\<rparr>]\<rparr>)"
  by (simp add: scanVideos_def renamed_file_def test_file_def started_db_def started_video_def
      scanned_db_def test_video_def empty_db_def)

text \<open>
  C5. A scan changes nothing but the title of a video already in the store. For every
  store and every list of discovered files, when the scan returns, the rows the table
  held before are still there, in their places, each with the same identifier, path,
  filename, duration, position, status, module reference and sort key; its title is the
  old one or the title of a discovered file. The witness rescans a video that is at
  position 120 of 600 seconds and in progress, found again under a different title.
\<close>

theorem rescan_updates_only_title:
  assumes "scanVideos d videos = Inr (r, d')"
  shows "length (tbl_videos d) \<le> length (tbl_videos d')
       \<and> list_all2 (\<lambda>v v'. v_id v' = v_id v \<and> v_path v' = v_path v
              \<and> v_filename v' = v_filename v
              \<and> v_duration v' = v_duration v \<and> v_position v' = v_position v
              \<and> v_status v' = v_status v \<and> v_module_id v' = v_module_id v
              \<and> v_sort_order v' = v_sort_order v
              \<and> (v_title v' = v_title v \<or> v_title v' \<in> f_title ` set videos))
           (tbl_videos d) (take (length (tbl_videos d)) (tbl_videos d'))"
proof -
  from scan_rows[OF assms]
  obtain olds news where o: "tbl_videos d' = olds @ news"
    "list_all2 (retitled (f_title ` set videos)) (tbl_videos d) olds"
    by blast
  have l: "length olds = length (tbl_videos d)"
    using o(2) by (simp add: list_all2_lengthD)
  then have t: "take (length (tbl_videos d)) (tbl_videos d') = olds"
    using o(1) by simp
  show ?thesis
    unfolding t using l o(1)
    by (auto intro: list_all2_mono[OF o(2)] dest: retitled_fields)
qed

theorem rescan_updates_only_title_witness:
  "scanVideos started_db [renamed_file]
     = Inr (\<lparr>total = 1, added = 0, existing = 1\<rparr>,
            started_db\<lparr>tbl_videos := [started_video\<lparr>v_title := ''Test Video''\<rparr>]\<rparr>)
   \<and> v_position (started_video\<lparr>v_title := ''Test Video''\<rparr>) = Num 120
   \<and> v_status (started_video\<lparr>v_title := ''Test Video''\<rparr>) = InProgress
   \<and> v_duration (started_video\<lparr>v_title := ''Test Video''\<rparr>) = Num 600
   \<and> v_title started_video = ''01. Test Video''"
proof -
  note h = rescan_started
  from rescan_updates_only_title[OF h]
  have "v_position (started_video\<lparr>v_title := ''Test Video''\<rparr>) = v_position started_video
      \<and> v_status (started_video\<lparr>v_title := ''Test Video''\<rparr>) = v_status started_video
      \<and> v_duration (started_video\<lparr>v_title := ''Test Video''\<rparr>) = v_duration started_video"
    by (simp add: started_db_def)
  then show ?thesis
    using h by (simp add: started_video_def test_video_def)
qed

text \<open>
  C6. For every store and every list of discovered files the scan returns, and a
  second scan of the same list adds nothing: it reports \<open>added = 0\<close> and every file as
  existing, and the table has the same length, identifiers and paths after it as after
  the first. The first scan deletes no row: the rows of the store before it are a
  prefix of the table after it (also those whose file is not in the list any more),
  and the table grows by the number of added files. Paths stay pairwise distinct under
  a scan, and they are pairwise distinct in every reachable store.
\<close>

theorem rescan_idempotent:
  "\<exists>r1 d1 r2 d2. scanVideos d videos = Inr (r1, d1) \<and> scanVideos d1 videos = Inr (r2, d2)
      \<and> total r1 = length videos \<and> total r2 = length videos
      \<and> added r2 = 0 \<and> existing r2 = length videos
      \<and> length (tbl_videos d2) = length (tbl_videos d1)
      \<and> map v_id (tbl_videos d2) = map v_id (tbl_videos d1)
      \<and> map v_path (tbl_videos d2) = map v_path (tbl_videos d1)
      \<and> length (tbl_videos d1) = length (tbl_videos d) + added r1
      \<and> take (length (tbl_videos d)) (map v_id (tbl_videos d1)) = map v_id (tbl_videos d)
      \<and> take (length (tbl_videos d)) (map v_path (tbl_videos d1)) = map v_path (tbl_videos d)
      \<and> (distinct (map v_path (tbl_videos d)) \<longrightarrow> distinct (map v_path (tbl_videos d1)))
      \<and> (reachable d \<longrightarrow> distinct (map v_path (tbl_videos d)))"
proof -
  from scan_total[of d videos]
  obtain r1 d1 where s1: "scanVideos d videos = Inr (r1, d1)"
    by blast
  from rescan[OF s1]
  obtain d2 where s2: "scanVideos d1 videos
            = Inr (\<lparr>total = length videos, added = 0, existing = length videos\<rparr>, d2)"
    and r2: "list_all2 (retitled (f_title ` set videos)) (tbl_videos d1) (tbl_videos d2)"
    by blast
  from scan_rows[OF s1]
  obtain olds news where o: "tbl_videos d1 = olds @ news"
    "list_all2 (retitled (f_title ` set videos)) (tbl_videos d) olds"
    "added r1 = length news" "total r1 = length videos"
    by blast
  have l: "length olds = length (tbl_videos d)"
    using o(2) by (simp add: list_all2_lengthD)
  have a: "length (tbl_videos d2) = length (tbl_videos d1)"
    using r2 by (simp add: list_all2_lengthD)
  have b: "map v_id (tbl_videos d2) = map v_id (tbl_videos d1)"
    "map v_path (tbl_videos d2) = map v_path (tbl_videos d1)"
    using list_all2_retitled_map(1,2)[OF r2] by simp_all
  have c: "take (length (tbl_videos d)) (map v_id (tbl_videos d1)) = map v_id (tbl_videos d)"
    "take (length (tbl_videos d)) (map v_path (tbl_videos d1)) = map v_path (tbl_videos d)"
    using list_all2_retitled_map(1,2)[OF o(2)] l o(1) by simp_all
  have e: "length (tbl_videos d1) = length (tbl_videos d) + added r1"
    using o(1,3) l by simp
  have f: "distinct (map v_path (tbl_videos d)) \<longrightarrow> distinct (map v_path (tbl_videos d1))"
    using scan_paths(2)[OF s1] by blast
  have g: "reachable d \<longrightarrow> distinct (map v_path (tbl_videos d))"
    using reachable_distinct_paths by blast
  show ?thesis
    using s1 s2 o(4) a b c e f g
    by (intro exI[of _ r1] exI[of _ d1]
        exI[of _ "\<lparr>total = length videos, added = 0, existing = length videos\<rparr>"] exI[of _ d2])
       simp
qed

theorem rescan_idempotent_witness:
  "reachable empty_db
   \<and> (\<exists>r1 d1 r2 d2. scanVideos empty_db [test_file] = Inr (r1, d1)
      \<and> scanVideos d1 [test_file] = Inr (r2, d2)
      \<and> added r2 = 0 \<and> existing r2 = length [test_file]
      \<and> map v_id (tbl_videos d2) = map v_id (tbl_videos d1)
      \<and> map v_path (tbl_videos d2) = map v_path (tbl_videos d1)
      \<and> distinct (map v_path (tbl_videos d1)))"
proof -
  have e: "distinct (map v_path (tbl_videos empty_db))"
    by (simp add: empty_db_def)
  from rescan_idempotent[of empty_db "[test_file]"] e
  have "\<exists>r1 d1 r2 d2. scanVideos empty_db [test_file] = Inr (r1, d1)
      \<and> scanVideos d1 [test_file] = Inr (r2, d2)
      \<and> added r2 = 0 \<and> existing r2 = length [test_file]
      \<and> map v_id (tbl_videos d2) = map v_id (tbl_videos d1)
      \<and> map v_path (tbl_videos d2) = map v_path (tbl_videos d1)
      \<and> distinct (map v_path (tbl_videos d1))"
    by blast
  then show ?thesis
    using reachable_init by blast
qed

subsection \<open>Statistics\<close>

lemma count_status_total:
  "int (length (tbl_videos d))
     = count_status d Unwatched + count_status d InProgress + count_status d Completed"
proof -
  have "length xs = length (filter (\<lambda>v. v_status v = Unwatched) xs)
          + length (filter (\<lambda>v. v_status v = InProgress) xs)
          + length (filter (\<lambda>v. v_status v = Completed) xs)" for xs :: "video list"
  proof (induction xs)
    case Nil
    show ?case by simp
  next
    case (Cons v xs)
    then show ?case by (cases "v_status v") simp_all
  qed
  then show ?thesis
    unfolding count_status_def by (metis of_nat_add)
qed

lemma count_status_le: "count_status d s \<le> int (length (tbl_videos d))"
  unfolding count_status_def by simp

lemma count_status_nonneg: "0 \<le> count_status d s"
  unfolding count_status_def by simp

text \<open>
  The error of the two roundings of \<^verbatim>\<open>(completed / total) * 100\<close>, for counts below
  \<open>2 ^ 44\<close>: each is at most one part in \<open>2 ^ 53\<close> of the value it rounds.
\<close>

lemma percent_near:
  fixes c t :: int
  assumes "0 < c" and "c \<le> t" and "t < 2 ^ 44"
  shows "\<exists>z. js_mul (js_div (Num (of_int c)) (Num (of_int t))) (Num 100) = Num z
           \<and> \<bar>z - 100 * of_int c / of_int t\<bar> < 1 / 2 ^ 45"
proof -
  define x :: rat where "x = of_int c / of_int t"
  have t: "0 < t" using assms by simp
  have rt: "(0::rat) < of_int t" using t by simp
  have rc: "(1::rat) \<le> of_int c" using assms(1) by (simp add: int_one_le_iff_zero_less)
  have x1: "x \<le> 1" unfolding x_def using assms(2) rt by simp
  have x0: "0 < x" unfolding x_def using assms(1) rt by simp
  have "(of_int t :: rat) \<le> of_int (2 ^ 44)" using assms(3) by (simp only: of_int_le_iff)
  then have "(of_int t :: rat) \<le> 2 ^ 44" by simp
  then have "1 / 2 ^ 44 \<le> 1 / (of_int t :: rat)" using rt by (simp add: frac_le)
  also have "\<dots> \<le> x" unfolding x_def using rc rt by (simp add: divide_right_mono)
  finally have xl: "1 / 2 ^ 44 \<le> x" .
  have eps: "(2::rat) powi (- 53) = 1 / 2 ^ 53" by simp
  have "2 powi (- 44) \<le> x" using xl by simp
  then have i1: "- 44 \<le> ilog2 x" by (rule ilog2_ge[OF x0])
  have "x < 2 powi 1" using x1 by simp
  then have i2: "ilog2 x < 1" by (rule ilog2_less[OF x0])
  have "- 1022 \<le> ilog2 x" "ilog2 x < 1023" using i1 i2 by simp_all
  from fl_pos_near[OF x0 this]
  obtain q where q: "fl_pos x = Num q" "\<bar>q - x\<bar> \<le> x * (1 / 2 ^ 53)"
    unfolding eps by blast
  have "x * (1 / 2 ^ 53) \<le> 1 * (1 / 2 ^ 53)" using x1 by (intro mult_right_mono) simp_all
  then have qe: "\<bar>q - x\<bar> \<le> 1 / 2 ^ 53" using q(2) by linarith
  have "x * (1 / 2 ^ 53) \<le> x * (1 / 2)" using x0 by (intro mult_left_mono) simp_all
  then have "\<bar>q - x\<bar> \<le> x * (1 / 2)" using q(2) by linarith
  then have qh: "x / 2 \<le> q" by linarith
  have d: "js_div (Num (of_int c)) (Num (of_int t)) = Num q"
    using q(1) x0 t assms(1) by (simp add: fl_def x_def)
  define y where "y = q * 100"
  have y0: "0 < y" unfolding y_def using qh x0 by simp
  have yl: "1 / 2 ^ 44 \<le> y" unfolding y_def using qh xl by simp
  have yu: "y \<le> 100 + 100 / 2 ^ 53" unfolding y_def using qe x1 by linarith
  have "2 powi (- 44) \<le> y" using yl by simp
  then have j1: "- 44 \<le> ilog2 y" by (rule ilog2_ge[OF y0])
  have "y < 2 powi 7" using yu by simp
  then have j2: "ilog2 y < 7" by (rule ilog2_less[OF y0])
  have "- 1022 \<le> ilog2 y" "ilog2 y < 1023" using j1 j2 by simp_all
  from fl_pos_near[OF y0 this]
  obtain z where z: "fl_pos y = Num z" "\<bar>z - y\<bar> \<le> y * (1 / 2 ^ 53)"
    unfolding eps by blast
  have "y * (1 / 2 ^ 53) \<le> (100 + 100 / 2 ^ 53) * (1 / 2 ^ 53)"
    using yu by (intro mult_right_mono) simp_all
  moreover have "(100 + 100 / 2 ^ 53) * (1 / 2 ^ 53) \<le> (101 / 2 ^ 53 :: rat)"
    by simp
  ultimately have ze: "\<bar>z - q * 100\<bar> \<le> 101 / 2 ^ 53"
    using z(2) unfolding y_def by linarith
  have m: "js_mul (Num q) (Num 100) = Num z"
    using z(1) y0 by (simp add: fl_def y_def)
  have "\<bar>z - 100 * x\<bar> \<le> 201 / 2 ^ 53"
    using ze qe by linarith
  also have "\<dots> < 1 / 2 ^ 45" by simp
  finally have "\<bar>z - 100 * x\<bar> < 1 / 2 ^ 45" .
  then have "\<bar>z - 100 * of_int c / of_int t\<bar> < 1 / 2 ^ 45" unfolding x_def by simp
  then show ?thesis using d m by simp
qed

text \<open>
  A multiple of \<open>1 / (2 * t)\<close> that is smaller than \<open>1 / 2 ^ 45\<close> is not positive, for
  \<open>t\<close> below \<open>2 ^ 44\<close>.
\<close>

lemma small_multiple:
  fixes D t :: int and e :: rat
  assumes "e * (2 * of_int t) = of_int D" and "e < 1 / 2 ^ 45" and "0 < t" and "t < 2 ^ 44"
  shows "e \<le> 0"
proof (rule ccontr)
  assume "\<not> e \<le> 0"
  then have e: "0 < e" by simp
  have rt: "(0::rat) < of_int t" using assms(3) by simp
  have "(0::rat) < of_int D" using e rt unfolding assms(1)[symmetric] by simp
  then have "1 \<le> D" by simp
  then have "(1::rat) \<le> of_int D" by (simp only: of_int_le_iff[symmetric] of_int_1)
  then have l: "1 \<le> e * (2 * of_int t)" unfolding assms(1) .
  have "(of_int t :: rat) \<le> of_int (2 ^ 44)" using assms(4) by (simp only: of_int_le_iff)
  then have "2 * (of_int t :: rat) \<le> 2 ^ 45" by simp
  then have "e * (2 * of_int t) \<le> e * 2 ^ 45" using e by (intro mult_left_mono) simp_all
  also have "\<dots> < 1 / 2 ^ 45 * 2 ^ 45" using assms(2) by (intro mult_strict_right_mono) simp_all
  finally have "e * (2 * of_int t) < 1" by simp
  then show False using l by simp
qed

lemma percent_nearest:
  fixes c t :: int
  assumes "0 \<le> c" and "c \<le> t" and "0 < t" and "t < 2 ^ 44"
  shows "\<exists>k. math_round (js_mul (js_div (Num (of_int c)) (Num (of_int t))) (Num 100))
                = Num (of_int k)
           \<and> \<bar>of_int k - 100 * of_int c / (of_int t :: rat)\<bar> \<le> 1 / 2"
proof (cases "c = 0")
  case True
  have "\<lfloor>(1 / 2 :: rat)\<rfloor> = 0"
    by (rule floor_unique) simp_all
  then have "math_round (js_mul (js_div (Num (of_int c)) (Num (of_int t))) (Num 100))
          = Num (of_int 0)"
    using True assms(3) by (simp add: fl_def)
  then show ?thesis using True by (intro exI[of _ 0]) simp
next
  case False
  then have c: "0 < c" using assms(1) by simp
  from percent_near[OF c assms(2,4)]
  obtain z where z: "js_mul (js_div (Num (of_int c)) (Num (of_int t))) (Num 100) = Num z"
    "\<bar>z - 100 * of_int c / of_int t\<bar> < 1 / 2 ^ 45"
    by blast
  define X :: rat where "X = 100 * of_int c / of_int t"
  define k where "k = \<lfloor>z + 1 / 2\<rfloor>"
  have rt: "(0::rat) < of_int t" using assms(3) by simp
  have X: "X * of_int t = 100 * of_int c" unfolding X_def using rt by simp
  have k: "of_int k \<le> z + 1 / 2" "z + 1 / 2 < of_int k + 1"
    unfolding k_def by linarith+
  have zX: "\<bar>z - X\<bar> < 1 / 2 ^ 45" using z(2) unfolding X_def .
  have "(of_int k - 1 / 2 - X) * (2 * of_int t) = of_int ((2 * k - 1) * t - 200 * c)"
    using X by (simp add: algebra_simps)
  moreover have "of_int k - 1 / 2 - X < 1 / 2 ^ 45" using k(1) zX by linarith
  ultimately have lo: "of_int k - 1 / 2 - X \<le> 0"
    using assms(3,4) by (rule small_multiple)
  have "(X - of_int k - 1 / 2) * (2 * of_int t) = of_int (200 * c - (2 * k + 1) * t)"
    using X by (simp add: algebra_simps)
  moreover have "X - of_int k - 1 / 2 < 1 / 2 ^ 45" using k(2) zX by linarith
  ultimately have hi: "X - of_int k - 1 / 2 \<le> 0"
    using assms(3,4) by (rule small_multiple)
  have "\<bar>of_int k - X\<bar> \<le> 1 / 2" using lo hi by linarith
  moreover have "math_round (Num z) = Num (of_int k)" unfolding k_def by simp
  ultimately show ?thesis unfolding X_def z(1) by blast
qed

lemma nearest_is_round:
  fixes X :: rat
  assumes "\<bar>of_int k - X\<bar> \<le> 1 / 2" and "\<forall>m. X \<noteq> of_int m + 1 / 2"
  shows "k = round X"
proof -
  have ne: "X \<noteq> of_int k + 1 / 2" using assms(2) by blast
  have a: "of_int k \<le> X + 1 / 2" using assms(1) by linarith
  have "X \<le> of_int k + 1 / 2" using assms(1) by linarith
  with ne have "X < of_int k + 1 / 2" by simp
  then have b: "X + 1 / 2 < of_int k + 1" by linarith
  have "\<lfloor>X + 1 / 2\<rfloor> = k" using a b by (rule floor_unique)
  then show ?thesis by (simp add: round_def)
qed

lemma forty_counts:
  "int (length (tbl_videos forty_db)) = 40" "count_status forty_db Completed = 23"
  "count_status forty_db InProgress = 0"
  by (simp_all add: forty_db_def empty_db_def count_status_def test_video_def upt_rec)

text \<open>
  C8, as the specification states it, fails: the percentage is not
  \<open>round (100 * completed / total)\<close>. With 23 of 40 videos completed that is 57.5,
  which rounds to 58; the code computes \<^verbatim>\<open>(23 / 40) * 100\<close> in doubles, which is
  \<^verbatim>\<open>57.49999999999999\<close>, and returns 57.
\<close>

theorem stats_percent_rounds_down:
  "getStats forty_db
     = \<lparr>s_total = 40, s_completed = 23, s_inProgress = 0, s_unwatched = 17,
        s_percentComplete = Num 57\<rparr>
   \<and> round (100 * 23 / 40 :: rat) = 58"
proof -
  have "\<lfloor>(100 * 23 / 40 :: rat) + 1 / 2\<rfloor> = 58"
    by (rule floor_unique) simp_all
  then have "round (100 * 23 / 40 :: rat) = 58"
    by (simp only: round_def)
  then show ?thesis
    using forty_counts percent_23_of_40 by (simp add: getStats_def Let_def)
qed

text \<open>
  C8, amended. For every store of fewer than \<open>2 ^ 44\<close> videos (a database file of
  SQLite cannot hold more) the statistics satisfy \<open>unwatched + inProgress + completed =
  total\<close>; the unwatched count is the total minus the two counts that are queried, and
  it is the number of unwatched rows; the percentage is 0 when the total is 0, and
  otherwise it is \<^verbatim>\<open>Math.round((completed / total) * 100)\<close> computed in doubles, which
  is an integer nearest to \<open>100 * completed / total\<close>: it is
  \<open>round (100 * completed / total)\<close> unless that number lies halfway between two
  integers, and one of the two integers if it does. The witness is a store of three
  videos, two of them completed: 67 per cent.
\<close>

theorem stats_consistent:
  assumes "length (tbl_videos d) < 2 ^ 44"
  shows "s_unwatched (getStats d) + s_inProgress (getStats d) + s_completed (getStats d)
     = s_total (getStats d)
   \<and> s_unwatched (getStats d)
       = s_total (getStats d) - s_completed (getStats d) - s_inProgress (getStats d)
   \<and> s_total (getStats d) = int (length (tbl_videos d))
   \<and> s_completed (getStats d) = count_status d Completed
   \<and> s_inProgress (getStats d) = count_status d InProgress
   \<and> s_unwatched (getStats d) = count_status d Unwatched
   \<and> s_percentComplete (getStats d)
       = (if s_total (getStats d) = 0 then Num 0
          else math_round (js_mul (js_div (Num (of_int (s_completed (getStats d))))
                                     (Num (of_int (s_total (getStats d))))) (Num 100)))
   \<and> (\<exists>k. s_percentComplete (getStats d) = Num (of_int k)
          \<and> (s_total (getStats d) = 0 \<longrightarrow> k = 0)
          \<and> (s_total (getStats d) \<noteq> 0 \<longrightarrow>
               \<bar>of_int k - 100 * of_int (s_completed (getStats d))
                               / (of_int (s_total (getStats d)) :: rat)\<bar> \<le> 1 / 2
               \<and> ((\<forall>m. 100 * of_int (s_completed (getStats d))
                            / (of_int (s_total (getStats d)) :: rat) \<noteq> of_int m + 1 / 2)
                    \<longrightarrow> k = round (100 * of_int (s_completed (getStats d))
                                      / (of_int (s_total (getStats d)) :: rat)))))"
proof -
  define t where "t = int (length (tbl_videos d))"
  define c where "c = count_status d Completed"
  have f: "s_total (getStats d) = t" "s_completed (getStats d) = c"
    "s_inProgress (getStats d) = count_status d InProgress"
    "s_unwatched (getStats d) = t - c - count_status d InProgress"
    "s_percentComplete (getStats d)
       = (if t = 0 then Num 0
          else math_round (js_mul (js_div (Num (of_int c)) (Num (of_int t))) (Num 100)))"
    unfolding t_def c_def by (simp_all add: getStats_def Let_def)
  have u: "t - c - count_status d InProgress = count_status d Unwatched"
    unfolding t_def c_def using count_status_total[of d] by simp
  have c: "0 \<le> c" "c \<le> t"
    unfolding t_def c_def by (rule count_status_nonneg, rule count_status_le)
  have t: "t < 2 ^ 44" unfolding t_def using assms by simp
  have "\<exists>k. s_percentComplete (getStats d) = Num (of_int k)
          \<and> (t = 0 \<longrightarrow> k = 0)
          \<and> (t \<noteq> 0 \<longrightarrow>
               \<bar>of_int k - 100 * of_int c / (of_int t :: rat)\<bar> \<le> 1 / 2
               \<and> ((\<forall>m. 100 * of_int c / (of_int t :: rat) \<noteq> of_int m + 1 / 2)
                    \<longrightarrow> k = round (100 * of_int c / (of_int t :: rat))))"
  proof (cases "t = 0")
    case True
    then show ?thesis unfolding f(5) by (intro exI[of _ 0]) simp
  next
    case False
    then have "0 < t" unfolding t_def by simp
    from percent_nearest[OF c this t]
    obtain k where k:
      "math_round (js_mul (js_div (Num (of_int c)) (Num (of_int t))) (Num 100)) = Num (of_int k)"
      "\<bar>of_int k - 100 * of_int c / (of_int t :: rat)\<bar> \<le> 1 / 2"
      by blast
    show ?thesis
      unfolding f(5) using False k nearest_is_round[OF k(2)] by (intro exI[of _ k]) simp
  qed
  then show ?thesis
    unfolding f u using count_status_total[of d] by (simp add: t_def c_def)
qed

lemma three_counts:
  "int (length (tbl_videos three_db)) = 3" "count_status three_db Completed = 2"
  "count_status three_db InProgress = 1"
  by (simp_all add: three_db_def count_status_def completed_video_def started_video_def)

theorem stats_consistent_witness:
  "length (tbl_videos three_db) < 2 ^ 44
   \<and> s_total (getStats three_db) = 3 \<and> s_completed (getStats three_db) = 2
   \<and> s_inProgress (getStats three_db) = 1 \<and> s_unwatched (getStats three_db) = 0
   \<and> s_percentComplete (getStats three_db) = Num 67"
proof -
  have l: "length (tbl_videos three_db) < 2 ^ 44"
    by (simp add: three_db_def)
  note s = stats_consistent[OF l]
  have a: "s_total (getStats three_db) = 3" "s_completed (getStats three_db) = 2"
    "s_inProgress (getStats three_db) = 1" "s_unwatched (getStats three_db) = 0"
    using s three_counts count_status_total[of three_db] by simp_all
  from s have "\<exists>k. s_percentComplete (getStats three_db) = Num (of_int k)
          \<and> (s_total (getStats three_db) \<noteq> 0 \<longrightarrow>
               \<bar>of_int k - 100 * of_int (s_completed (getStats three_db))
                               / (of_int (s_total (getStats three_db)) :: rat)\<bar> \<le> 1 / 2)"
    by blast
  then obtain k where k: "s_percentComplete (getStats three_db) = Num (of_int k)"
    "\<bar>of_int k - 100 * of_int 2 / (of_int 3 :: rat)\<bar> \<le> 1 / 2"
    unfolding a by auto
  have "(of_int 66 :: rat) < of_int k" "(of_int k :: rat) < of_int 68"
    using k(2) by linarith+
  then have "66 < k" "k < 68"
    by (simp_all only: of_int_less_iff)
  then have "k = 67" by simp
  then show ?thesis using l a k(1) by simp
qed

subsection \<open>Notes\<close>

text \<open>
  C9. For every store and identifier, \<^verbatim>\<open>getNotes\<close> throws the not-found error exactly
  when no video has the identifier, and throws nothing else; when the video exists and
  has no row of notes, the result is the object with the video reference and the
  empty content; when it has one, the result is such a row; and the store that the call
  leaves is the store it was given.
\<close>

theorem getNotes_contract:
  "(getNotes d i = Inl NotFoundError \<longleftrightarrow> i \<notin> v_id ` set (tbl_videos d))
   \<and> getNotes d i \<noteq> Inl ValidationError \<and> getNotes d i \<noteq> Inl ConstraintError
   \<and> (i \<in> v_id ` set (tbl_videos d) \<and> i \<notin> n_video_id ` set (tbl_notes d)
        \<longrightarrow> getNotes d i = Inr (NotesObject i '''', d))
   \<and> (i \<in> v_id ` set (tbl_videos d) \<and> i \<in> n_video_id ` set (tbl_notes d)
        \<longrightarrow> (\<exists>n\<in>set (tbl_notes d). n_video_id n = i \<and> getNotes d i = Inr (NotesRow n, d)))
   \<and> (getNotes d i = Inr (r, d') \<longrightarrow> d' = d)"
proof -
  have v: "get_video d i = None \<longleftrightarrow> i \<notin> v_id ` set (tbl_videos d)"
    by (auto simp: get_video_def find_None_iff)
  have n: "find (\<lambda>n. n_video_id n = i) (tbl_notes d) = None
             \<longleftrightarrow> i \<notin> n_video_id ` set (tbl_notes d)"
    by (auto simp: find_None_iff)
  have s: "find (\<lambda>n. n_video_id n = i) (tbl_notes d) = Some x
             \<Longrightarrow> x \<in> set (tbl_notes d) \<and> n_video_id x = i" for x
    by (auto simp: find_Some_iff)
  show ?thesis
    using v n s
    by (cases "get_video d i"; cases "find (\<lambda>n. n_video_id n = i) (tbl_notes d)")
       (auto simp: getNotes_def)
qed

theorem getNotes_contract_witness:
  "1 \<in> v_id ` set (tbl_videos scanned_db) \<and> 1 \<notin> n_video_id ` set (tbl_notes scanned_db)
   \<and> getNotes scanned_db 1 = Inr (NotesObject 1 '''', scanned_db)
   \<and> 999 \<notin> v_id ` set (tbl_videos scanned_db)
   \<and> getNotes scanned_db 999 = Inl NotFoundError"
proof -
  have a: "1 \<in> v_id ` set (tbl_videos scanned_db)"
    "1 \<notin> n_video_id ` set (tbl_notes scanned_db)"
    "999 \<notin> v_id ` set (tbl_videos scanned_db)"
    by (simp_all add: scanned_db_def test_video_def empty_db_def)
  show ?thesis
    using a getNotes_contract[of scanned_db 1] getNotes_contract[of scanned_db 999]
    by blast
qed

lemma set_order_by: "set (order_by_sort_order_filename rows) = set rows"
  by (simp add: order_by_sort_order_filename_def)

lemma sorted_order_by:
  "sorted_wrt (\<lambda>r r'. v_sort_order (fst r) < v_sort_order (fst r')
                 \<or> (v_sort_order (fst r) = v_sort_order (fst r')
                     \<and> v_filename (fst r) \<le> v_filename (fst r')))
     (order_by_sort_order_filename rows)"
proof -
  have "sorted (map (\<lambda>r. (v_sort_order (fst r), v_filename (fst r)))
                  (order_by_sort_order_filename rows))"
    unfolding order_by_sort_order_filename_def by (rule sorted_sort_key)
  then have "sorted_wrt (\<lambda>r r'. (v_sort_order (fst r), v_filename (fst r))
                           \<le> (v_sort_order (fst r'), v_filename (fst r')))
               (order_by_sort_order_filename rows)"
    by (simp add: sorted_map)
  then show ?thesis
    by (rule sorted_wrt_mono_rel[rotated]) (auto simp: less_eq_prod_def)
qed

lemma saveNotes_Inr:
  assumes "saveNotes d i c = Inr (r, d')"
  shows "d' = upsert_notes d i c"
  using assms by (auto simp: saveNotes_def getNotes_def split: option.splits)

lemma set_content_rows:
  "\<forall>n\<in>set (map (\<lambda>n. if n_video_id n = i then n\<lparr>n_content := c\<rparr> else n) xs).
      n_video_id n = i \<longrightarrow> n_content n = c"
proof
  fix n
  assume "n \<in> set (map (\<lambda>n. if n_video_id n = i then n\<lparr>n_content := c\<rparr> else n) xs)"
  then obtain m where m: "n = (if n_video_id m = i then m\<lparr>n_content := c\<rparr> else m)"
    unfolding set_map by (rule imageE)
  show "n_video_id n = i \<longrightarrow> n_content n = c"
    unfolding m by (cases "n_video_id m = i") simp_all
qed

lemma set_content_keeps:
  "x \<in> set xs \<Longrightarrow> n_video_id x = i \<Longrightarrow>
   \<exists>n\<in>set (map (\<lambda>n. if n_video_id n = i then n\<lparr>n_content := c\<rparr> else n) xs).
      n_video_id n = i"
  by (induction xs) auto

lemma upsert_notes_rows:
  "tbl_videos (upsert_notes d i c) = tbl_videos d
   \<and> (\<exists>n\<in>set (tbl_notes (upsert_notes d i c)). n_video_id n = i)
   \<and> (\<forall>n\<in>set (tbl_notes (upsert_notes d i c)). n_video_id n = i \<longrightarrow> n_content n = c)"
proof (cases "find (\<lambda>n. n_video_id n = i) (tbl_notes d)")
  case None
  then have "\<forall>n\<in>set (tbl_notes d). n_video_id n \<noteq> i"
    by (simp add: find_None_iff)
  then show ?thesis
    using None by (simp add: upsert_notes_def Let_def)
next
  case (Some x)
  have x: "x \<in> set (tbl_notes d)" "n_video_id x = i"
    using Some by (auto simp: find_Some_iff)
  have t: "tbl_notes (upsert_notes d i c)
             = map (\<lambda>n. if n_video_id n = i then n\<lparr>n_content := c\<rparr> else n) (tbl_notes d)"
    "tbl_videos (upsert_notes d i c) = tbl_videos d"
    using Some by (simp_all add: upsert_notes_def)
  show ?thesis
    unfolding t using set_content_rows[of i c "tbl_notes d"] set_content_keeps[OF x, of c]
    by (intro conjI) (rule refl, assumption+)
qed

lemma save_hello:
  "saveNotes scanned_db 1 ''hello''
     = Inr (NotesRow \<lparr>n_id = 1, n_video_id = 1, n_content = ''hello''\<rparr>, noted_db)"
  by (simp add: saveNotes_def getNotes_def upsert_notes_def get_video_def next_rowid_def
      noted_db_def scanned_db_def test_video_def empty_db_def Let_def)

lemma save_empty:
  "saveNotes noted_db 1 ''''
     = Inr (NotesRow \<lparr>n_id = 1, n_video_id = 1, n_content = ''''\<rparr>, cleared_db)"
  by (simp add: saveNotes_def getNotes_def upsert_notes_def get_video_def next_rowid_def
      noted_db_def cleared_db_def scanned_db_def test_video_def empty_db_def Let_def)

lemma listed_hello: "getVideosWithNotes noted_db = [(test_video, ''hello'')]"
  by (simp add: getVideosWithNotes_def order_by_sort_order_filename_def
      noted_db_def scanned_db_def test_video_def empty_db_def)

lemma listed_empty:
  "getVideosWithNotes cleared_db = []"
  by (simp add: getVideosWithNotes_def order_by_sort_order_filename_def
      noted_db_def cleared_db_def scanned_db_def test_video_def empty_db_def)

text \<open>
  C10. For every store, \<^verbatim>\<open>getVideosWithNotes\<close> returns exactly the videos that have
  a row of notes with non-empty content, each with that content, ordered by sort key
  and then by filename. After \<^verbatim>\<open>saveNotes(videoId, '')\<close> the row of notes of the video
  exists, the video is not in the listing, and the table of videos is as before. The
  witness saves \<^verbatim>\<open>'hello'\<close> and then \<^verbatim>\<open>''\<close> for the scanned video.
\<close>

theorem videos_with_notes:
  "set (getVideosWithNotes d)
     = {(v, c). v \<in> set (tbl_videos d) \<and> c \<noteq> ''''
          \<and> (\<exists>n\<in>set (tbl_notes d). n_video_id n = v_id v \<and> n_content n = c)}
   \<and> sorted_wrt (\<lambda>r r'. v_sort_order (fst r) < v_sort_order (fst r')
                 \<or> (v_sort_order (fst r) = v_sort_order (fst r')
                     \<and> v_filename (fst r) \<le> v_filename (fst r')))
        (getVideosWithNotes d)
   \<and> (saveNotes d i '''' = Inr (r, d') \<longrightarrow>
        (\<exists>n\<in>set (tbl_notes d'). n_video_id n = i)
        \<and> (\<forall>row\<in>set (getVideosWithNotes d'). v_id (fst row) \<noteq> i)
        \<and> tbl_videos d' = tbl_videos d)"
proof (intro conjI impI)
  show "set (getVideosWithNotes d)
     = {(v, c). v \<in> set (tbl_videos d) \<and> c \<noteq> ''''
          \<and> (\<exists>n\<in>set (tbl_notes d). n_video_id n = v_id v \<and> n_content n = c)}"
    unfolding getVideosWithNotes_def set_order_by by auto
next
  show "sorted_wrt (\<lambda>r r'. v_sort_order (fst r) < v_sort_order (fst r')
                 \<or> (v_sort_order (fst r) = v_sort_order (fst r')
                     \<and> v_filename (fst r) \<le> v_filename (fst r')))
        (getVideosWithNotes d)"
    unfolding getVideosWithNotes_def by (rule sorted_order_by)
next
  assume "saveNotes d i '''' = Inr (r, d')"
  then have d': "d' = upsert_notes d i ''''"
    by (rule saveNotes_Inr)
  note u = upsert_notes_rows[of d i "''''"]
  show "\<exists>n\<in>set (tbl_notes d'). n_video_id n = i" using u d' by blast
  show "tbl_videos d' = tbl_videos d" using u d' by blast
  have e: "\<forall>n\<in>set (tbl_notes d'). n_video_id n = i \<longrightarrow> n_content n = ''''"
    using u d' by blast
  show "\<forall>row\<in>set (getVideosWithNotes d'). v_id (fst row) \<noteq> i"
  proof
    fix row assume "row \<in> set (getVideosWithNotes d')"
    then obtain v n where "row = (v, n_content n)" "n \<in> set (tbl_notes d')"
      "v_id v = n_video_id n" "n_content n \<noteq> ''''"
      unfolding getVideosWithNotes_def set_order_by by auto
    then show "v_id (fst row) \<noteq> i" using e by auto
  qed
qed

theorem videos_with_notes_witness:
  "saveNotes scanned_db 1 ''hello''
     = Inr (NotesRow \<lparr>n_id = 1, n_video_id = 1, n_content = ''hello''\<rparr>, noted_db)
   \<and> getVideosWithNotes noted_db = [(test_video, ''hello'')]
   \<and> saveNotes noted_db 1 ''''
     = Inr (NotesRow \<lparr>n_id = 1, n_video_id = 1, n_content = ''''\<rparr>, cleared_db)
   \<and> (\<exists>n\<in>set (tbl_notes cleared_db). n_video_id n = 1)
   \<and> getVideosWithNotes cleared_db = []"
proof -
  from videos_with_notes[of noted_db 1
      "NotesRow \<lparr>n_id = 1, n_video_id = 1, n_content = ''''\<rparr>" cleared_db]
    save_empty
  have "\<exists>n\<in>set (tbl_notes cleared_db). n_video_id n = 1"
    by blast
  then show ?thesis
    using save_hello listed_hello save_empty listed_empty by (intro conjI)
qed

subsection \<open>Search\<close>

lemma like_chars_percent: "like_chars [37] s"
  by (induction s) simp_all

lemma like_chars_prefix:
  assumes "\<forall>c\<in>set q. c \<noteq> 37 \<and> c \<noteq> 95"
  shows "like_chars (q @ [37]) s = prefix_ci q s"
  using assms
proof (induction q arbitrary: s)
  case Nil
  then show ?case using like_chars_percent by simp
next
  case (Cons a q)
  show ?case
  proof (cases s)
    case Nil
    then show ?thesis using Cons.prems by simp
  next
    case (Cons c cs)
    then show ?thesis using Cons.prems Cons.IH[of cs] by simp
  qed
qed

lemma like_chars_contains:
  assumes "\<forall>c\<in>set q. c \<noteq> 37 \<and> c \<noteq> 95"
  shows "like_chars (37 # q @ [37]) s = contains_ci q s"
proof (induction s)
  case Nil
  show ?case using like_chars_prefix[OF assms, of "[]"] by simp
next
  case (Cons c cs)
  show ?case using like_chars_prefix[OF assms, of "c # cs"] Cons.IH by simp
qed

text \<open>
  \<open>contains_ci\<close> is containment as a substring, up to the case of the letters A to Z.
\<close>

lemma prefix_ci_iff:
  "prefix_ci q s \<longleftrightarrow> (\<exists>post. map ascii_lower s = map ascii_lower q @ post)"
proof (induction q s rule: prefix_ci.induct)
  case (1 s)
  show ?case by simp
next
  case (2 q qs)
  show ?case by simp
next
  case (3 q qs c cs)
  then show ?case by auto
qed

lemma contains_ci_iff:
  "contains_ci q s \<longleftrightarrow> (\<exists>pre post. map ascii_lower s = pre @ map ascii_lower q @ post)"
proof (induction s)
  case Nil
  show ?case by (cases q) (simp_all add: prefix_ci_iff)
next
  case (Cons c cs)
  show ?case
  proof
    assume "contains_ci q (c # cs)"
    then consider "prefix_ci q (c # cs)" | "contains_ci q cs" by auto
    then show "\<exists>pre post. map ascii_lower (c # cs) = pre @ map ascii_lower q @ post"
    proof cases
      case 1
      then obtain post where "map ascii_lower (c # cs) = map ascii_lower q @ post"
        unfolding prefix_ci_iff by blast
      then have "map ascii_lower (c # cs) = [] @ map ascii_lower q @ post" by simp
      then show ?thesis by blast
    next
      case 2
      then obtain pre post where "map ascii_lower cs = pre @ map ascii_lower q @ post"
        unfolding Cons.IH by blast
      then have "map ascii_lower (c # cs) = (ascii_lower c # pre) @ map ascii_lower q @ post"
        by simp
      then show ?thesis by blast
    qed
  next
    assume "\<exists>pre post. map ascii_lower (c # cs) = pre @ map ascii_lower q @ post"
    then obtain pre post where e: "map ascii_lower (c # cs) = pre @ map ascii_lower q @ post"
      by blast
    show "contains_ci q (c # cs)"
    proof (cases pre)
      case Nil
      then have "prefix_ci q (c # cs)" unfolding prefix_ci_iff using e by auto
      then show ?thesis by simp
    next
      case (Cons a pre')
      then have "map ascii_lower cs = pre' @ map ascii_lower q @ post" using e by simp
      then have "contains_ci q cs" unfolding Cons.IH by blast
      then show ?thesis by simp
    qed
  qed
qed

text \<open>The characters of a pattern \<^verbatim>\<open>%query%\<close>.\<close>

lemma utf8_fix_ge: "128 \<le> utf8_fix c"
  by (simp add: utf8_fix_def)

lemma utf8_read_ascii:
  "x \<in> set (utf8_read st bs) \<Longrightarrow> x < 128 \<Longrightarrow> x \<in> set bs"
proof (induction st bs rule: utf8_read.induct)
  case 1
  then show ?case by simp
next
  case (2 c)
  then show ?case using utf8_fix_ge[of c] by simp
next
  case (3 b bs)
  then show ?case by (auto split: if_splits)
next
  case (4 c b bs)
  then show ?case using utf8_fix_ge[of c] by (auto split: if_splits)
qed

lemma utf8_read_snoc_percent: "utf8_read st (bs @ [37]) = utf8_read st bs @ [37]"
  by (induction st bs rule: utf8_read.induct) simp_all

lemma chars_pattern: "chars (''%'' @ query @ ''%'') = 37 # chars query @ [37]"
  using utf8_read_snoc_percent[of None "map of_char query"] by (simp add: chars_def)

lemma of_char_mem:
  assumes "of_char c \<in> set (map of_char query :: nat list)"
  shows "c \<in> set query"
proof -
  from assms obtain c' where "c' \<in> set query" "(of_char c' :: nat) = of_char c" by auto
  then show ?thesis by simp
qed

lemma chars_no_wildcard:
  assumes "CHR ''%'' \<notin> set query" and "CHR ''_'' \<notin> set query"
  shows "\<forall>c\<in>set (chars query). c \<noteq> 37 \<and> c \<noteq> 95"
proof (intro ballI conjI notI)
  fix c assume c: "c \<in> set (chars query)"
  {
    assume "c = 37"
    then have "37 \<in> set (map of_char query :: nat list)"
      using c utf8_read_ascii[of 37 None "map of_char query"] by (simp add: chars_def)
    then have "of_char CHR ''%'' \<in> set (map of_char query :: nat list)" by simp
    then show False using assms(1) of_char_mem by blast
  }
  {
    assume "c = 95"
    then have "95 \<in> set (map of_char query :: nat list)"
      using c utf8_read_ascii[of 95 None "map of_char query"] by (simp add: chars_def)
    then have "of_char CHR ''_'' \<in> set (map of_char query :: nat list)" by simp
    then show False using assms(2) of_char_mem by blast
  }
qed

lemma c_str_pattern:
  assumes "CHR 0x00 \<notin> set query"
  shows "c_str (''%'' @ query @ ''%'') = ''%'' @ query @ ''%''"
  unfolding c_str_def using assms by (auto simp: takeWhile_eq_all_conv)

lemma like_contains:
  assumes "CHR ''%'' \<notin> set query" and "CHR ''_'' \<notin> set query" and "CHR 0x00 \<notin> set query"
  shows "like (''%'' @ query @ ''%'') s = contains_ci (chars query) (sql_text s)"
  unfolding like_def sql_text_def c_str_pattern[OF assms(3)] chars_pattern
  using like_chars_contains[OF chars_no_wildcard[OF assms(1,2)]] by simp

text \<open>The rows of a search that returns.\<close>

lemma left_join_module_rows:
  "row \<in> set (left_join_module d v) \<Longrightarrow>
   fst row = v
   \<and> (snd row = None \<and> (\<forall>mo\<in>set (tbl_modules d). v_module_id v \<noteq> Some (m_id mo))
      \<or> (\<exists>mo\<in>set (tbl_modules d). v_module_id v = Some (m_id mo) \<and> snd row = Some (m_name mo)))"
  by (auto simp: left_join_module_def Let_def filter_empty_conv split: if_splits)

lemma left_join_module_fst: "fst ` set (left_join_module d v) = {v}"
  by (auto simp: left_join_module_def Let_def image_iff filter_empty_conv split: if_splits)

lemma searchVideos_Inr:
  assumes "length query \<le> 49998"
  shows "searchVideos d query =
     Inr (order_by_sort_order_filename
            (concat (map (left_join_module d)
               (filter (\<lambda>v. like (''%'' @ query @ ''%'') (v_title v)
                             \<or> like (''%'' @ query @ ''%'') (v_filename v))
                  (tbl_videos d)))))"
  using assms by (simp add: searchVideos_def Let_def)

lemma search_rows_set:
  "set (order_by_sort_order_filename
            (concat (map (left_join_module d) (filter P (tbl_videos d)))))
     = (\<Union>v\<in>{v \<in> set (tbl_videos d). P v}. set (left_join_module d v))"
  unfolding set_order_by by auto

lemma search_rows_fst:
  "fst ` set (order_by_sort_order_filename
            (concat (map (left_join_module d) (filter P (tbl_videos d)))))
     = {v \<in> set (tbl_videos d). P v}"
  unfolding search_rows_set image_UN left_join_module_fst by auto

lemma sql_text_title: "sql_text ''01. Test Video'' = [48, 49, 46, 32, 84, 101, 115, 116, 32, 86, 105, 100, 101, 111]"
  by (simp add: sql_text_def c_str_def chars_def)

lemma sql_text_filename:
  "sql_text ''01. Test Video.mp4''
     = [48, 49, 46, 32, 84, 101, 115, 116, 32, 86, 105, 100, 101, 111, 46, 109, 112, 52]"
  by (simp add: sql_text_def c_str_def chars_def)

lemma search_test: "searchVideos scanned_db ''TEST'' = Inr [(test_video, None)]"
  by (simp add: searchVideos_def order_by_sort_order_filename_def left_join_module_def
      scanned_db_def test_video_def empty_db_def like_def sql_text_title
      sql_text_def c_str_def chars_def ascii_lower_def)

lemma search_underscore: "searchVideos scanned_db ''_'' = Inr [(test_video, None)]"
  by (simp add: searchVideos_def order_by_sort_order_filename_def left_join_module_def
      scanned_db_def test_video_def empty_db_def like_def sql_text_title
      sql_text_def c_str_def chars_def ascii_lower_def)

lemma search_percent: "searchVideos scanned_db ''0%4'' = Inr [(test_video, None)]"
  by (simp add: searchVideos_def order_by_sort_order_filename_def left_join_module_def
      scanned_db_def test_video_def empty_db_def like_def sql_text_title sql_text_filename
      sql_text_def c_str_def chars_def ascii_lower_def)

lemma search_empty: "searchVideos scanned_db '''' = Inr [(test_video, None)]"
  by (simp add: searchVideos_def order_by_sort_order_filename_def left_join_module_def
      scanned_db_def test_video_def empty_db_def like_def sql_text_title
      sql_text_def c_str_def chars_def ascii_lower_def)

lemma search_nul: "searchVideos scanned_db [CHR 0x00] = Inr [(test_video, None)]"
  by (simp add: searchVideos_def order_by_sort_order_filename_def left_join_module_def
      scanned_db_def test_video_def empty_db_def like_def sql_text_title
      sql_text_def c_str_def chars_def ascii_lower_def)

lemma search_long: "searchVideos scanned_db long_query = Inl PatternTooComplex"
proof -
  have "length long_query = 49999" unfolding long_query_def by (rule length_replicate)
  then show ?thesis
    by (simp add: searchVideos_def scanned_db_def empty_db_def)
qed

lemma search_accent: "searchVideos accent_db accent_query = Inr []"
  by (simp add: searchVideos_def order_by_sort_order_filename_def left_join_module_def
      accent_db_def accent_query_def scanned_db_def test_video_def empty_db_def like_def
      sql_text_filename sql_text_def c_str_def chars_def ascii_lower_def utf8_lead_def
      utf8_fix_def)

lemma search_nul_title: "searchVideos nul_db ''b'' = Inr []"
  by (simp add: searchVideos_def order_by_sort_order_filename_def left_join_module_def
      nul_db_def scanned_db_def test_video_def empty_db_def like_def
      sql_text_filename sql_text_def c_str_def chars_def ascii_lower_def)

lemma accent_chars:
  "chars accent_query = [0xC9]" "sql_text [CHR 0xC3, CHR 0xA9] = [0xE9]"
  by (simp_all add: accent_query_def sql_text_def c_str_def chars_def utf8_lead_def utf8_fix_def)

text \<open>
  C2, as the specification states it, fails in six ways. The scanned store holds one
  video, with the title \<^verbatim>\<open>01. Test Video\<close> and the filename
  \<^verbatim>\<open>01. Test Video.mp4\<close>. (1) The query is spliced into the pattern of \<^verbatim>\<open>LIKE\<close>,
  where \<^verbatim>\<open>_\<close> matches any character and \<^verbatim>\<open>%\<close> any run of characters: the queries
  \<^verbatim>\<open>_\<close> and \<^verbatim>\<open>0%4\<close> return the video although neither is a substring of its title or
  of its filename. (2) The empty query makes the pattern \<^verbatim>\<open>%%\<close>, and
  \<^verbatim>\<open>searchVideos\<close> returns every video, not none. (3) SQLite reads a pattern up to its
  first zero byte: the query of one zero byte returns the video, which contains none.
  (4) SQLite refuses a pattern of more than 50000 bytes: a query of 49999 bytes is an
  error, not an empty result. (5) \<^verbatim>\<open>LIKE\<close> folds the case of the letters A to Z only:
  the query \<^verbatim>\<open>U+00C9\<close> (E acute, upper case) does not find the title \<^verbatim>\<open>U+00E9\<close> (e
  acute, lower case). (6) SQLite reads a title up to its first zero byte as well: the
  query \<^verbatim>\<open>b\<close> does not find the title that has a \<^verbatim>\<open>b\<close> after a zero byte.
\<close>

theorem search_wildcards:
  "(searchVideos scanned_db ''_'' = Inr [(test_video, None)]
    \<and> searchVideos scanned_db ''0%4'' = Inr [(test_video, None)]
    \<and> v_title test_video = ''01. Test Video''
    \<and> v_filename test_video = ''01. Test Video.mp4''
    \<and> \<not> contains_ci (chars ''_'') (sql_text (v_title test_video))
    \<and> \<not> contains_ci (chars ''_'') (sql_text (v_filename test_video))
    \<and> \<not> contains_ci (chars ''0%4'') (sql_text (v_title test_video))
    \<and> \<not> contains_ci (chars ''0%4'') (sql_text (v_filename test_video)))
   \<and> searchVideos scanned_db '''' = Inr [(test_video, None)]
   \<and> (searchVideos scanned_db [CHR 0x00] = Inr [(test_video, None)]
      \<and> CHR 0x00 \<notin> set (v_title test_video) \<and> CHR 0x00 \<notin> set (v_filename test_video))
   \<and> (searchVideos scanned_db long_query = Inl PatternTooComplex
      \<and> length long_query = 49999)
   \<and> (searchVideos accent_db accent_query = Inr []
      \<and> chars accent_query = [0xC9]
      \<and> map (\<lambda>v. sql_text (v_title v)) (tbl_videos accent_db) = [[0xE9]])
   \<and> (searchVideos nul_db ''b'' = Inr []
      \<and> map v_title (tbl_videos nul_db) = [[CHR ''a'', CHR 0x00, CHR ''b'']])"
proof -
  have d: "map v_title (tbl_videos nul_db) = [[CHR ''a'', CHR 0x00, CHR ''b'']]"
    by (simp add: nul_db_def)
  have a: "v_title test_video = ''01. Test Video''"
    "v_filename test_video = ''01. Test Video.mp4''"
    "CHR 0x00 \<notin> set (v_title test_video)" "CHR 0x00 \<notin> set (v_filename test_video)"
    by (simp_all add: test_video_def)
  have s: "\<not> contains_ci (chars ''_'') (sql_text (v_title test_video))"
    "\<not> contains_ci (chars ''_'') (sql_text (v_filename test_video))"
    "\<not> contains_ci (chars ''0%4'') (sql_text (v_title test_video))"
    "\<not> contains_ci (chars ''0%4'') (sql_text (v_filename test_video))"
    by (simp_all add: test_video_def sql_text_title sql_text_filename chars_def
        ascii_lower_def)
  have b: "length long_query = 49999"
    unfolding long_query_def by (rule length_replicate)
  have c: "map (\<lambda>v. sql_text (v_title v)) (tbl_videos accent_db) = [[0xE9]]"
    by (simp add: accent_db_def accent_chars)
  show ?thesis
    using a b c d s search_underscore search_percent search_empty search_nul search_long
      search_accent accent_chars(1) search_nul_title
    by (intro conjI)
qed

text \<open>
  C2, amended. For every store and every query of at most 49998 bytes that contains
  none of \<^verbatim>\<open>%\<close>, \<^verbatim>\<open>_\<close> and the zero byte, \<^verbatim>\<open>searchVideos\<close> returns, and the videos
  it returns are exactly those whose title or filename contains the query as a
  substring up to the case of the letters A to Z (\<open>contains_ci\<close>, which
  \<open>contains_ci_iff\<close> relates to the plain notion of a substring), where query, title
  and filename are compared as the characters SQLite reads from them (\<open>chars\<close> and
  \<open>sql_text\<close>: a title or filename ends at its first zero byte, if it has one). Each
  video comes with the name of its module, or with none when it has no module; a
  query that matches nothing returns the empty list. The empty query yields the empty
  result in the search handlers of the controller, which do not call
  \<^verbatim>\<open>searchVideos\<close> for it, and hand every other query to it.
\<close>

theorem search_substring:
  assumes "CHR ''%'' \<notin> set query" and "CHR ''_'' \<notin> set query"
    and "CHR 0x00 \<notin> set query" and "length query \<le> 49998"
  shows "\<exists>rows. searchVideos d query = Inr rows
       \<and> fst ` set rows
           = {v \<in> set (tbl_videos d).
                contains_ci (chars query) (sql_text (v_title v))
                \<or> contains_ci (chars query) (sql_text (v_filename v))}
       \<and> (\<forall>row\<in>set rows.
             snd row = None
               \<and> (\<forall>mo\<in>set (tbl_modules d). v_module_id (fst row) \<noteq> Some (m_id mo))
             \<or> (\<exists>mo\<in>set (tbl_modules d).
                   v_module_id (fst row) = Some (m_id mo) \<and> snd row = Some (m_name mo)))
       \<and> ((\<forall>v\<in>set (tbl_videos d).
               \<not> contains_ci (chars query) (sql_text (v_title v))
               \<and> \<not> contains_ci (chars query) (sql_text (v_filename v)))
            \<longrightarrow> rows = [])
       \<and> search_handler d '''' = Inr []
       \<and> (query \<noteq> '''' \<longrightarrow> search_handler d query = Inr rows)"
proof -
  let ?P = "\<lambda>v. like (''%'' @ query @ ''%'') (v_title v)
                  \<or> like (''%'' @ query @ ''%'') (v_filename v)"
  let ?rows = "order_by_sort_order_filename
            (concat (map (left_join_module d) (filter ?P (tbl_videos d))))"
  have r: "searchVideos d query = Inr ?rows"
    by (rule searchVideos_Inr[OF assms(4)])
  have f: "fst ` set ?rows
           = {v \<in> set (tbl_videos d).
                contains_ci (chars query) (sql_text (v_title v))
                \<or> contains_ci (chars query) (sql_text (v_filename v))}"
    unfolding search_rows_fst like_contains[OF assms(1,2,3)] ..
  have m: "\<forall>row\<in>set ?rows.
             snd row = None
               \<and> (\<forall>mo\<in>set (tbl_modules d). v_module_id (fst row) \<noteq> Some (m_id mo))
             \<or> (\<exists>mo\<in>set (tbl_modules d).
                   v_module_id (fst row) = Some (m_id mo) \<and> snd row = Some (m_name mo))"
  proof
    fix row assume "row \<in> set ?rows"
    then obtain v where "row \<in> set (left_join_module d v)"
      unfolding search_rows_set by blast
    from left_join_module_rows[OF this]
    show "snd row = None
               \<and> (\<forall>mo\<in>set (tbl_modules d). v_module_id (fst row) \<noteq> Some (m_id mo))
             \<or> (\<exists>mo\<in>set (tbl_modules d).
                   v_module_id (fst row) = Some (m_id mo) \<and> snd row = Some (m_name mo))"
      by blast
  qed
  have n: "(\<forall>v\<in>set (tbl_videos d).
               \<not> contains_ci (chars query) (sql_text (v_title v))
               \<and> \<not> contains_ci (chars query) (sql_text (v_filename v)))
            \<longrightarrow> ?rows = []"
  proof
    assume "\<forall>v\<in>set (tbl_videos d).
               \<not> contains_ci (chars query) (sql_text (v_title v))
               \<and> \<not> contains_ci (chars query) (sql_text (v_filename v))"
    then have "fst ` set ?rows = {}"
      unfolding f by blast
    then show "?rows = []"
      by simp
  qed
  have h: "search_handler d '''' = Inr []"
    by (simp add: search_handler_def)
  have q: "query \<noteq> '''' \<longrightarrow> search_handler d query = Inr ?rows"
    using r by (simp add: search_handler_def)
  show ?thesis
    using r f m n h q by (intro exI[of _ ?rows] conjI)
qed

theorem search_substring_witness:
  "CHR ''%'' \<notin> set ''nonexistent'' \<and> CHR ''_'' \<notin> set ''nonexistent''
   \<and> CHR 0x00 \<notin> set ''nonexistent'' \<and> length ''nonexistent'' \<le> 49998
   \<and> searchVideos scanned_db ''nonexistent'' = Inr []
   \<and> search_handler scanned_db '''' = Inr []
   \<and> searchVideos scanned_db ''TEST'' = Inr [(test_video, None)]
   \<and> contains_ci (chars ''TEST'') (sql_text (v_title test_video))"
proof -
  have w: "CHR ''%'' \<notin> set ''nonexistent''" "CHR ''_'' \<notin> set ''nonexistent''"
    "CHR 0x00 \<notin> set ''nonexistent''" "length ''nonexistent'' \<le> 49998"
    by simp_all
  have n: "\<forall>v\<in>set (tbl_videos scanned_db).
               \<not> contains_ci (chars ''nonexistent'') (sql_text (v_title v))
               \<and> \<not> contains_ci (chars ''nonexistent'') (sql_text (v_filename v))"
    by (simp add: scanned_db_def test_video_def empty_db_def sql_text_title sql_text_filename
        chars_def ascii_lower_def)
  have c: "contains_ci (chars ''TEST'') (sql_text (v_title test_video))"
    by (simp add: test_video_def sql_text_title chars_def ascii_lower_def)
  from search_substring[OF w, of scanned_db] n
  have "searchVideos scanned_db ''nonexistent'' = Inr []" "search_handler scanned_db '''' = Inr []"
    by auto
  then show ?thesis
    using w search_test c by (intro conjI)
qed

end
